theory Spec2Isabelle
  imports Main "HOL-Library.Word"
begin

text \<open>
  A model of the open-chaining hash table \<^verbatim>\<open>SimplerHashTable\<close> of
  \<^verbatim>\<open>src/coreclr/inc/simplerhash.inl\<close>: the magic-number division, the table of primes, the
  node chains in the allocator's memory, and the operations \<^verbatim>\<open>Lookup\<close>, \<^verbatim>\<open>Set\<close>, \<^verbatim>\<open>Remove\<close> and
  the growth of the bucket array.
\<close>

section \<open>Magic-number division (simplerhash.inl, lines 11--27)\<close>

type_synonym u32 = "32 word"
type_synonym u64 = "64 word"

text \<open>\<^verbatim>\<open>PrimeInfo\<close>: a prime with the multiplier and the shift of its magic-number division.
  All three fields are \<^verbatim>\<open>unsigned\<close>.\<close>

record PrimeInfo =
  prime :: u32
  magic :: u32
  shift :: u32

text \<open>\<^verbatim>\<open>magicNumberDivide\<close>: both operands are widened to 64 bits, multiplied there, and the
  product is shifted right by \<^verbatim>\<open>32 + p.shift\<close> (an \<^verbatim>\<open>unsigned\<close> sum) before the cast back to
  32 bits.\<close>

definition magicNumberDivide :: "u32 \<Rightarrow> PrimeInfo \<Rightarrow> u32" where
  "magicNumberDivide numerator p =
     (let num = (ucast numerator :: u64);
          mag = (ucast (magic p) :: u64);
          product = drop_bit (unat (32 + shift p)) (num * mag)
      in ucast product)"

text \<open>\<^verbatim>\<open>magicNumberRem\<close>: the 32-bit subtraction and multiplication wrap. The debug assertion
  \<^verbatim>\<open>result == numerator % p.prime\<close> is compiled out of release builds; it is proved below
  for valid constants instead of being a branch of the model.\<close>

definition magicNumberRem :: "u32 \<Rightarrow> PrimeInfo \<Rightarrow> u32" where
  "magicNumberRem numerator p =
     (let d = magicNumberDivide numerator p;
          result = numerator - (d * prime p)
      in result)"

text \<open>Validity of the constants of a \<^verbatim>\<open>PrimeInfo\<close>, after the scheme the source cites
  (Hacker's Delight, unsigned division by a constant): the multiplier times the prime
  overshoots \<open>2 ^ (32 + shift)\<close> by at most \<open>2 ^ shift\<close>.\<close>

definition magic_valid :: "PrimeInfo \<Rightarrow> bool" where
  "magic_valid p \<longleftrightarrow>
     prime p \<noteq> 0 \<and> shift p < 32 \<and>
     2 ^ (32 + unat (shift p)) \<le> unat (magic p) * unat (prime p) \<and>
     unat (magic p) * unat (prime p) \<le> 2 ^ (32 + unat (shift p)) + 2 ^ unat (shift p)"

section \<open>The hash table and its collaborators\<close>

text \<open>How an operation can stop without a result: \<^verbatim>\<open>Behavior::NoMemory()\<close> (which does not
  return), a read or write through a null, dangling or out-of-range pointer, and a division
  by zero.\<close>

datatype error = NoMemory | AccessViolation | DivideByZero

type_synonym addr = nat

text \<open>\<^verbatim>\<open>Node\<close>: key, value and the raw pointer to the next node of the bucket's chain.\<close>

record ('k, 'v) Node =
  m_key :: 'k
  m_val :: 'v
  m_next :: "addr option"

type_synonym ('k, 'v) heap = "addr \<Rightarrow> ('k, 'v) Node option"

text \<open>The table object together with the node memory its pointers refer to: \<open>heap\<close> maps the
  address of every live \<^verbatim>\<open>Node\<close> of the allocator to its contents; \<open>m_table\<close> is the bucket
  array (\<open>None\<close> is \<^verbatim>\<open>NULL\<close>), an array of chain heads.\<close>

record ('k, 'v) SimplerHashTable =
  heap :: "('k, 'v) heap"
  m_table :: "addr option list option"
  m_tableSizeInfo :: PrimeInfo
  m_tableCount :: u32
  m_tableMax :: u32

text \<open>Modelled from the spec: the allocator \<^verbatim>\<open>IAllocator\<close> behind \<^verbatim>\<open>m_alloc\<close>, of which the
  source file only has the calls. \<open>Alloc\<close> gives the address for a new node, and \<open>ArrayAlloc\<close> grants a
  bucket array of the given length, or they signal that no memory is left (\<open>None\<close>,
  \<open>False\<close>), which ends the operation through \<^verbatim>\<open>Behavior::NoMemory()\<close>. Both may depend on
  everything allocated so far. \<^verbatim>\<open>Free\<close> of a node removes it from \<open>heap\<close>.\<close>

record ('k, 'v) IAllocator =
  Alloc :: "('k, 'v) SimplerHashTable \<Rightarrow> addr option"
  ArrayAlloc :: "('k, 'v) SimplerHashTable \<Rightarrow> u32 \<Rightarrow> bool"

text \<open>What else the template takes from outside the source file: the table \<^verbatim>\<open>primeInfo\<close>
  (declared \<^verbatim>\<open>extern\<close>), the \<^verbatim>\<open>KeyFuncs\<close> policy and the constants of the \<^verbatim>\<open>Behavior\<close> policy,
  which are 32-bit unsigned like the count they are multiplied with.\<close>

record ('k, 'v) policies = "('k, 'v) IAllocator" +
  primeInfo :: "PrimeInfo list"
  GetHashCode :: "'k \<Rightarrow> u32"
  Equals :: "'k \<Rightarrow> 'k \<Rightarrow> bool"
  s_growth_factor_numerator :: u32
  s_growth_factor_denominator :: u32
  s_density_factor_numerator :: u32
  s_density_factor_denominator :: u32
  s_minimum_allocation :: u32

text \<open>An operation ends with an error or a result, and in both cases with the state it
  has reached; \<open>None\<close> around it stands for a loop that never ends.\<close>

type_synonym ('k, 'v, 'a) outcome =
  "(error \<times> ('k, 'v) SimplerHashTable + 'a \<times> ('k, 'v) SimplerHashTable) option"

text \<open>Modelled from the spec: the default \<^verbatim>\<open>PrimeInfo()\<close>, whose definition is not in the
  source file. Its prime is 0 (the uninitialized zero-capacity state, which \<^verbatim>\<open>FindNode\<close> tests
  for); the two other fields, on which nothing depends, are taken as 0 too. With it the
  constructor is as in the source: no bucket array, no entries, threshold 0. The argument
  is the node memory of the allocator at that time.\<close>

definition SimplerHashTable_new :: "('k, 'v) heap \<Rightarrow> ('k, 'v) SimplerHashTable" where
  "SimplerHashTable_new h =
     \<lparr>heap = h, m_table = None,
      m_tableSizeInfo = \<lparr>prime = 0, magic = 0, shift = 0\<rparr>,
      m_tableCount = 0, m_tableMax = 0\<rparr>"

definition GetCount :: "('k, 'v) SimplerHashTable \<Rightarrow> u32" where
  "GetCount s = m_tableCount s"

definition GetIndexForKey :: "('k, 'v) policies \<Rightarrow> 'k \<Rightarrow> ('k, 'v) SimplerHashTable \<Rightarrow> u32" where
  "GetIndexForKey E k s =
     (let hash = GetHashCode E k;
          index = magicNumberRem hash (m_tableSizeInfo s)
      in index)"

text \<open>The loop \<^verbatim>\<open>while (pN != NULL && !KeyFuncs::Equals(k, pN->m_key)) pN = pN->m_next;\<close> of
  \<^verbatim>\<open>FindNode\<close> and \<^verbatim>\<open>Set\<close>. It ends with the value of \<^verbatim>\<open>pN\<close>.\<close>

partial_function (option) chain_search ::
  "('k \<Rightarrow> 'k \<Rightarrow> bool) \<Rightarrow> ('k, 'v) heap \<Rightarrow> 'k \<Rightarrow> addr option \<Rightarrow> (error + addr option) option"
where
  "chain_search eq h k pN =
     (case pN of
        None \<Rightarrow> Some (Inr None)
      | Some a \<Rightarrow>
          (case h a of
             None \<Rightarrow> Some (Inl AccessViolation)
           | Some n \<Rightarrow>
               if eq k (m_key n) then Some (Inr (Some a))
               else chain_search eq h k (m_next n)))"

definition FindNode ::
  "('k, 'v) policies \<Rightarrow> 'k \<Rightarrow> ('k, 'v) SimplerHashTable \<Rightarrow> (error + addr option) option"
where
  "FindNode E k s =
     (if prime (m_tableSizeInfo s) = 0 then Some (Inr None)
      else
        let index = GetIndexForKey E k s in
        case m_table s of
          None \<Rightarrow> Some (Inl AccessViolation)
        | Some bs \<Rightarrow>
            if \<not> unat index < length bs then Some (Inl AccessViolation)
            else
              let pN = bs ! unat index in
              if pN = None then Some (Inr None)
              else chain_search (Equals E) (heap s) k pN)"

text \<open>\<^verbatim>\<open>Lookup(key, pVal)\<close>: \<open>pVal\<close> is a pointer into the caller's memory \<open>mem\<close> or \<^verbatim>\<open>NULL\<close>.\<close>

definition Lookup ::
  "('k, 'v) policies \<Rightarrow> 'k \<Rightarrow> nat option \<Rightarrow> ('k, 'v) SimplerHashTable \<Rightarrow> (nat \<Rightarrow> 'v option)
     \<Rightarrow> ('k, 'v, bool \<times> (nat \<Rightarrow> 'v option)) outcome"
where
  "Lookup E key pVal s mem =
     (case FindNode E key s of
        None \<Rightarrow> None
      | Some (Inl e) \<Rightarrow> Some (Inl (e, s))
      | Some (Inr None) \<Rightarrow> Some (Inr ((False, mem), s))
      | Some (Inr (Some a)) \<Rightarrow>
          (case heap s a of
             None \<Rightarrow> Some (Inl (AccessViolation, s))
           | Some n \<Rightarrow>
               (case pVal of
                  None \<Rightarrow> Some (Inr ((True, mem), s))
                | Some p \<Rightarrow> Some (Inr ((True, mem(p \<mapsto> m_val n)), s)))))"

text \<open>\<^verbatim>\<open>NextPrime\<close>: the scan of \<^verbatim>\<open>primeInfo\<close> from index 0; past the last entry it calls
  \<^verbatim>\<open>Behavior::NoMemory()\<close>.\<close>

function NextPrime_loop :: "PrimeInfo list \<Rightarrow> u32 \<Rightarrow> nat \<Rightarrow> error + PrimeInfo" where
  "NextPrime_loop tbl number i =
     (if i < length tbl then
        (if prime (tbl ! i) \<ge> number then Inr (tbl ! i)
         else NextPrime_loop tbl number (i + 1))
      else Inl NoMemory)"
  by pat_completeness auto
termination
  by (relation "measure (\<lambda>(tbl, number, i). length tbl - i)") auto

definition NextPrime :: "('k, 'v) policies \<Rightarrow> u32 \<Rightarrow> error + PrimeInfo" where
  "NextPrime E number = NextPrime_loop (primeInfo E) number 0"

text \<open>The inner loop of \<^verbatim>\<open>Reallocate\<close>: every node of one old chain is pushed on the head of
  its chain in the new array. Only \<^verbatim>\<open>m_next\<close> of the node and the slot of the new array are
  written.\<close>

partial_function (option) move_chain ::
  "('k, 'v) policies \<Rightarrow> PrimeInfo \<Rightarrow> ('k, 'v) heap \<Rightarrow> addr option list \<Rightarrow> addr option
     \<Rightarrow> (error \<times> ('k, 'v) heap + ('k, 'v) heap \<times> addr option list) option"
where
  "move_chain E newPrime h newTable pN =
     (case pN of
        None \<Rightarrow> Some (Inr (h, newTable))
      | Some a \<Rightarrow>
          (case h a of
             None \<Rightarrow> Some (Inl (AccessViolation, h))
           | Some n \<Rightarrow>
               let pNext = m_next n;
                   newIndex = magicNumberRem (GetHashCode E (m_key n)) newPrime
               in if \<not> unat newIndex < length newTable then Some (Inl (AccessViolation, h))
                  else move_chain E newPrime
                         (h(a \<mapsto> n\<lparr>m_next := newTable ! unat newIndex\<rparr>))
                         (newTable[unat newIndex := Some a]) pNext))"

text \<open>The outer loop of \<^verbatim>\<open>Reallocate\<close> over the old bucket array, \<open>n\<close> being
  \<^verbatim>\<open>m_tableSizeInfo.prime\<close>.\<close>

function move_buckets ::
  "('k, 'v) policies \<Rightarrow> PrimeInfo \<Rightarrow> addr option list option \<Rightarrow> nat \<Rightarrow> nat
     \<Rightarrow> ('k, 'v) heap \<Rightarrow> addr option list
     \<Rightarrow> (error \<times> ('k, 'v) heap + ('k, 'v) heap \<times> addr option list) option"
where
  "move_buckets E newPrime tbl n i h newTable =
     (if i < n then
        (case tbl of
           None \<Rightarrow> Some (Inl (AccessViolation, h))
         | Some bs \<Rightarrow>
             if \<not> i < length bs then Some (Inl (AccessViolation, h))
             else
               (case move_chain E newPrime h newTable (bs ! i) of
                  None \<Rightarrow> None
                | Some (Inl e) \<Rightarrow> Some (Inl e)
                | Some (Inr (h', newTable')) \<Rightarrow>
                    move_buckets E newPrime tbl n (i + 1) h' newTable'))
      else Some (Inr (h, newTable)))"
  by pat_completeness auto
termination
  by (relation "measure (\<lambda>(E, newPrime, tbl, n, i, h, newTable). n - i)") auto

text \<open>\<^verbatim>\<open>Reallocate\<close>. The new array is filled with \<^verbatim>\<open>NULL\<close>, the nodes are moved, and only then
  \<^verbatim>\<open>m_table\<close>, \<^verbatim>\<open>m_tableSizeInfo\<close> and \<^verbatim>\<open>m_tableMax\<close> are assigned, in this order. Bucket
  arrays are held by value, so freeing the old array leaves no trace in the state. The
  debug assertion on the size is compiled out of release builds.\<close>

definition Reallocate ::
  "('k, 'v) policies \<Rightarrow> u32 \<Rightarrow> ('k, 'v) SimplerHashTable \<Rightarrow> ('k, 'v, unit) outcome"
where
  "Reallocate E newTableSize s =
     (case NextPrime E newTableSize of
        Inl e \<Rightarrow> Some (Inl (e, s))
      | Inr newPrime \<Rightarrow>
          let newTableSize = prime newPrime in
          if \<not> ArrayAlloc E s newTableSize then Some (Inl (NoMemory, s))
          else
            let newTable = replicate (unat newTableSize) None in
            case move_buckets E newPrime (m_table s) (unat (prime (m_tableSizeInfo s))) 0
                   (heap s) newTable of
              None \<Rightarrow> None
            | Some (Inl (e, h')) \<Rightarrow> Some (Inl (e, s\<lparr>heap := h'\<rparr>))
            | Some (Inr (h', newTable')) \<Rightarrow>
                let s1 = s\<lparr>heap := h', m_table := Some newTable', m_tableSizeInfo := newPrime\<rparr>
                in if s_density_factor_denominator E = 0 then Some (Inl (DivideByZero, s1))
                   else Some (Inr ((), s1\<lparr>m_tableMax :=
                          newTableSize * s_density_factor_numerator E
                            div s_density_factor_denominator E\<rparr>)))"

text \<open>\<^verbatim>\<open>Grow\<close>: the size is computed in \<^verbatim>\<open>unsigned\<close> arithmetic, left to right; a zero
  divisor traps before anything is written.\<close>

definition Grow :: "('k, 'v) policies \<Rightarrow> ('k, 'v) SimplerHashTable \<Rightarrow> ('k, 'v, unit) outcome" where
  "Grow E s =
     (if s_growth_factor_denominator E = 0 \<or> s_density_factor_numerator E = 0
      then Some (Inl (DivideByZero, s))
      else
        let newSize = m_tableCount s
                        * s_growth_factor_numerator E div s_growth_factor_denominator E
                        * s_density_factor_denominator E div s_density_factor_numerator E;
            newSize = (if newSize < s_minimum_allocation E then s_minimum_allocation E
                       else newSize)
        in if newSize < m_tableCount s then Some (Inl (NoMemory, s))
           else Reallocate E newSize s)"

definition CheckGrowth :: "('k, 'v) policies \<Rightarrow> ('k, 'v) SimplerHashTable \<Rightarrow> ('k, 'v, unit) outcome"
where
  "CheckGrowth E s =
     (if m_tableCount s = m_tableMax s then Grow E s else Some (Inr ((), s)))"

definition Set ::
  "('k, 'v) policies \<Rightarrow> 'k \<Rightarrow> 'v \<Rightarrow> ('k, 'v) SimplerHashTable \<Rightarrow> ('k, 'v, bool) outcome"
where
  "Set E k v s0 =
     (case CheckGrowth E s0 of
        None \<Rightarrow> None
      | Some (Inl es) \<Rightarrow> Some (Inl es)
      | Some (Inr (u, s)) \<Rightarrow>
          let index = GetIndexForKey E k s in
          case m_table s of
            None \<Rightarrow> Some (Inl (AccessViolation, s))
          | Some bs \<Rightarrow>
              if \<not> unat index < length bs then Some (Inl (AccessViolation, s))
              else
                (case chain_search (Equals E) (heap s) k (bs ! unat index) of
                   None \<Rightarrow> None
                 | Some (Inl e) \<Rightarrow> Some (Inl (e, s))
                 | Some (Inr (Some a)) \<Rightarrow>
                     (case heap s a of
                        None \<Rightarrow> Some (Inl (AccessViolation, s))
                      | Some n \<Rightarrow>
                          Some (Inr (True, s\<lparr>heap := (heap s)(a \<mapsto> n\<lparr>m_val := v\<rparr>)\<rparr>)))
                 | Some (Inr None) \<Rightarrow>
                     (case Alloc E s of
                        None \<Rightarrow> Some (Inl (NoMemory, s))
                      | Some pNewNode \<Rightarrow>
                          Some (Inr (False,
                            s\<lparr>heap := (heap s)(pNewNode \<mapsto>
                                 \<lparr>m_key = k, m_val = v, m_next = bs ! unat index\<rparr>),
                              m_table := Some (bs[unat index := Some pNewNode]),
                              m_tableCount := m_tableCount s + 1\<rparr>)))))"

text \<open>\<^verbatim>\<open>Node** ppN\<close> of \<^verbatim>\<open>Remove\<close> points either at a slot of the bucket array or at the
  \<^verbatim>\<open>m_next\<close> field of a node.\<close>

datatype link = BucketSlot nat | NextField addr

partial_function (option) remove_search ::
  "('k \<Rightarrow> 'k \<Rightarrow> bool) \<Rightarrow> ('k, 'v) heap \<Rightarrow> 'k \<Rightarrow> addr option \<Rightarrow> link
     \<Rightarrow> (error + addr option \<times> link) option"
where
  "remove_search eq h k pN ppN =
     (case pN of
        None \<Rightarrow> Some (Inr (None, ppN))
      | Some a \<Rightarrow>
          (case h a of
             None \<Rightarrow> Some (Inl AccessViolation)
           | Some n \<Rightarrow>
               if eq k (m_key n) then Some (Inr (Some a, ppN))
               else remove_search eq h k (m_next n) (NextField a)))"

text \<open>The assignment \<^verbatim>\<open>*ppN = v\<close>.\<close>

definition store_link ::
  "link \<Rightarrow> addr option \<Rightarrow> ('k, 'v) SimplerHashTable \<Rightarrow> error + ('k, 'v) SimplerHashTable"
where
  "store_link ppN v s =
     (case ppN of
        BucketSlot i \<Rightarrow>
          (case m_table s of
             None \<Rightarrow> Inl AccessViolation
           | Some bs \<Rightarrow>
               if i < length bs then Inr (s\<lparr>m_table := Some (bs[i := v])\<rparr>)
               else Inl AccessViolation)
      | NextField b \<Rightarrow>
          (case heap s b of
             None \<Rightarrow> Inl AccessViolation
           | Some n \<Rightarrow> Inr (s\<lparr>heap := (heap s)(b \<mapsto> n\<lparr>m_next := v\<rparr>)\<rparr>)))"

definition Remove ::
  "('k, 'v) policies \<Rightarrow> 'k \<Rightarrow> ('k, 'v) SimplerHashTable \<Rightarrow> ('k, 'v, bool) outcome"
where
  "Remove E k s =
     (let index = GetIndexForKey E k s in
      case m_table s of
        None \<Rightarrow> Some (Inl (AccessViolation, s))
      | Some bs \<Rightarrow>
          if \<not> unat index < length bs then Some (Inl (AccessViolation, s))
          else
            (case remove_search (Equals E) (heap s) k (bs ! unat index) (BucketSlot (unat index)) of
               None \<Rightarrow> None
             | Some (Inl e) \<Rightarrow> Some (Inl (e, s))
             | Some (Inr (None, ppN)) \<Rightarrow> Some (Inr (False, s))
             | Some (Inr (Some a, ppN)) \<Rightarrow>
                 (case heap s a of
                    None \<Rightarrow> Some (Inl (AccessViolation, s))
                  | Some n \<Rightarrow>
                      (case store_link ppN (m_next n) s of
                         Inl e \<Rightarrow> Some (Inl (e, s))
                       | Inr s1 \<Rightarrow>
                           let s2 = s1\<lparr>m_tableCount := m_tableCount s1 - 1\<rparr>;
                               s3 = s2\<lparr>heap := (heap s2)(a := None)\<rparr>
                           in Some (Inr (True, s3))))))"

section \<open>A concrete instance\<close>

text \<open>Two entries of a prime table with valid constants, the \<^verbatim>\<open>Behavior\<close> constants 3/2, 3/4
  and 7, keys that are their own hash code, and an allocator with four node cells.\<close>

definition E0 :: "(nat, nat) policies" where
  "E0 = \<lparr>Alloc = (\<lambda>s. find (\<lambda>a. heap s a = None) [0, 1, 2, 3]),
         ArrayAlloc = (\<lambda>s n. True),
         primeInfo = [\<lparr>prime = 9, magic = 0x38e38e39, shift = 1\<rparr>,
                      \<lparr>prime = 23, magic = 0xb21642c9, shift = 4\<rparr>],
         GetHashCode = of_nat, Equals = (=),
         s_growth_factor_numerator = 3, s_growth_factor_denominator = 2,
         s_density_factor_numerator = 3, s_density_factor_denominator = 4,
         s_minimum_allocation = 7\<rparr>"

text \<open>The same instance with a prime table that starts at 3 and a minimum allocation of
  1, so that two entries fill the first bucket array.\<close>

definition E1 :: "(nat, nat) policies" where
  "E1 = E0\<lparr>primeInfo := [\<lparr>prime = 3, magic = 0xaaaaaaab, shift = 1\<rparr>,
                          \<lparr>prime = 9, magic = 0x38e38e39, shift = 1\<rparr>],
            s_minimum_allocation := 1\<rparr>"


section \<open>Chains, the nodes of a table, and the invariant\<close>

text \<open>\<open>chain h p as\<close>: following \<^verbatim>\<open>m_next\<close> from the pointer \<open>p\<close> visits exactly the live nodes
  \<open>as\<close>, in this order, and ends at \<^verbatim>\<open>NULL\<close>.\<close>

fun chain :: "('k, 'v) heap \<Rightarrow> addr option \<Rightarrow> addr list \<Rightarrow> bool" where
  "chain h p [] \<longleftrightarrow> p = None"
| "chain h p (a # as) \<longleftrightarrow>
     p = Some a \<and> (case h a of None \<Rightarrow> False | Some n \<Rightarrow> chain h (m_next n) as)"

text \<open>The nodes on the chains of the bucket array, and the keys they hold.\<close>

definition table_nodes :: "('k, 'v) SimplerHashTable \<Rightarrow> addr set" where
  "table_nodes s =
     {a. \<exists>bs i as. m_table s = Some bs \<and> i < length bs \<and> chain (heap s) (bs ! i) as \<and> a \<in> set as}"

definition table_keys :: "('k, 'v) SimplerHashTable \<Rightarrow> 'k set" where
  "table_keys s = {k. \<exists>a n. a \<in> table_nodes s \<and> heap s a = Some n \<and> k = m_key n}"

text \<open>Key and value of every live node, without the links.\<close>

definition node_data :: "('k, 'v) heap \<Rightarrow> addr \<Rightarrow> ('k \<times> 'v) option" where
  "node_data h a = map_option (\<lambda>n. (m_key n, m_val n)) (h a)"

text \<open>The node at \<open>a\<close> is live and \<^verbatim>\<open>Equals(k, m_key)\<close> holds of its key.\<close>

definition matches :: "('k \<Rightarrow> 'k \<Rightarrow> bool) \<Rightarrow> ('k, 'v) heap \<Rightarrow> 'k \<Rightarrow> addr \<Rightarrow> bool" where
  "matches eq h k a = (case h a of None \<Rightarrow> False | Some n \<Rightarrow> eq k (m_key n))"

text \<open>The chains of a bucket array \<open>bs\<close> as lists \<open>ass\<close>, for a size descriptor \<open>p\<close> with valid
  constants: the array has \<open>prime p\<close> slots, every slot heads its chain, and every node sits
  in the bucket of its hash code.\<close>

definition chains_ok ::
  "('k, 'v) policies \<Rightarrow> PrimeInfo \<Rightarrow> ('k, 'v) heap \<Rightarrow> addr option list \<Rightarrow> addr list list \<Rightarrow> bool"
where
  "chains_ok E p h bs ass \<longleftrightarrow>
     magic_valid p \<and> length bs = unat (prime p) \<and> length ass = length bs \<and>
     (\<forall>i<length bs. chain h (bs ! i) (ass ! i) \<and>
        (\<forall>a\<in>set (ass ! i). \<forall>n. h a = Some n \<longrightarrow>
           unat (magicNumberRem (GetHashCode E (m_key n)) p) = i))"

definition buckets_ok ::
  "('k, 'v) policies \<Rightarrow> ('k, 'v) SimplerHashTable \<Rightarrow> addr option list \<Rightarrow> addr list list \<Rightarrow> bool"
where
  "buckets_ok E s bs ass \<longleftrightarrow>
     m_table s = Some bs \<and> chains_ok E (m_tableSizeInfo s) (heap s) bs ass"

definition nodes_of :: "addr list list \<Rightarrow> addr set" where
  "nodes_of ass = (\<Union>i<length ass. set (ass ! i))"

text \<open>No two different nodes of the table hold keys that \<^verbatim>\<open>KeyFuncs::Equals\<close> identifies.\<close>

definition no_duplicates :: "('k, 'v) policies \<Rightarrow> ('k, 'v) SimplerHashTable \<Rightarrow> bool" where
  "no_duplicates E s \<longleftrightarrow>
     (\<forall>a\<in>table_nodes s. \<forall>b\<in>table_nodes s. \<forall>n n'.
        a \<noteq> b \<longrightarrow> heap s a = Some n \<longrightarrow> heap s b = Some n' \<longrightarrow> \<not> Equals E (m_key n) (m_key n'))"

text \<open>The invariant of the table. Before the first growth there is no bucket array and all
  counters are zero. Afterwards the size descriptor has valid constants, the bucket array
  has \<open>prime\<close> slots, every slot heads a chain that ends, every node sits in the bucket of
  its hash code, no key occurs twice, and the count is the number of nodes (as a 32-bit
  value).\<close>

definition table_inv :: "('k, 'v) policies \<Rightarrow> ('k, 'v) SimplerHashTable \<Rightarrow> bool" where
  "table_inv E s \<longleftrightarrow>
     (case m_table s of
        None \<Rightarrow> prime (m_tableSizeInfo s) = 0 \<and> m_tableCount s = 0 \<and> m_tableMax s = 0
      | Some bs \<Rightarrow>
          magic_valid (m_tableSizeInfo s) \<and> length bs = unat (prime (m_tableSizeInfo s)) \<and>
          (\<forall>i<length bs. \<exists>as. chain (heap s) (bs ! i) as \<and>
             (\<forall>a\<in>set as. \<forall>n. heap s a = Some n \<longrightarrow>
                unat (magicNumberRem (GetHashCode E (m_key n)) (m_tableSizeInfo s)) = i)) \<and>
          no_duplicates E s \<and>
          m_tableCount s = of_nat (card (table_nodes s)))"

text \<open>What the table expects of its collaborators: \<^verbatim>\<open>Equals\<close> is an equivalence that the hash
  code respects; the \<^verbatim>\<open>Behavior\<close> constants satisfy the two static assertions of the
  constructor and no denominator is zero; every entry of the prime table has valid
  constants; the allocator hands out memory that holds no live node.\<close>

definition KeyFuncs_ok :: "('k, 'v) policies \<Rightarrow> bool" where
  "KeyFuncs_ok E \<longleftrightarrow>
     (\<forall>a. Equals E a a) \<and> (\<forall>a b. Equals E a b \<longrightarrow> Equals E b a) \<and>
     (\<forall>a b c. Equals E a b \<longrightarrow> Equals E b c \<longrightarrow> Equals E a c) \<and>
     (\<forall>a b. Equals E a b \<longrightarrow> GetHashCode E a = GetHashCode E b)"

definition Behavior_ok :: "('k, 'v) policies \<Rightarrow> bool" where
  "Behavior_ok E \<longleftrightarrow>
     s_growth_factor_denominator E < s_growth_factor_numerator E \<and>
     s_density_factor_numerator E < s_density_factor_denominator E \<and>
     s_growth_factor_denominator E \<noteq> 0 \<and> s_density_factor_numerator E \<noteq> 0"

definition policies_ok :: "('k, 'v) policies \<Rightarrow> bool" where
  "policies_ok E \<longleftrightarrow>
     KeyFuncs_ok E \<and> Behavior_ok E \<and> (\<forall>p\<in>set (primeInfo E). magic_valid p) \<and>
     (\<forall>s a. Alloc E s = Some a \<longrightarrow> heap s a = None)"

section \<open>Sequences of operations\<close>

datatype ('k, 'v) operation = DoSet 'k 'v | DoRemove 'k

text \<open>A caller that performs the operations one after the other; an operation that ends in
  an error (or never ends) ends the sequence.\<close>

fun run_ops ::
  "('k, 'v) policies \<Rightarrow> ('k, 'v) operation list \<Rightarrow> ('k, 'v) SimplerHashTable \<Rightarrow> ('k, 'v, unit) outcome"
where
  "run_ops E [] s = Some (Inr ((), s))"
| "run_ops E (DoSet k v # ops) s =
     (case Set E k v s of
        None \<Rightarrow> None
      | Some (Inl es) \<Rightarrow> Some (Inl es)
      | Some (Inr (b, s')) \<Rightarrow> run_ops E ops s')"
| "run_ops E (DoRemove k # ops) s =
     (case Remove E k s of
        None \<Rightarrow> None
      | Some (Inl es) \<Rightarrow> Some (Inl es)
      | Some (Inr (b, s')) \<Rightarrow> run_ops E ops s')"

section \<open>Magic-number division is exact\<close>

lemma magic_div_nat:
  fixes n m p s :: nat
  assumes p: "0 < p" and n: "n < 2 ^ 32"
    and lo: "2 ^ (32 + s) \<le> m * p" and hi: "m * p \<le> 2 ^ (32 + s) + 2 ^ s"
  shows "n * m div 2 ^ (32 + s) = n div p"
proof -
  define N :: nat where "N = 2 ^ (32 + s)"
  define q where "q = n div p"
  define r where "r = n mod p"
  have nqr: "n = q * p + r" and rp: "r < p" using p by (simp_all add: q_def r_def)
  have Npos: "0 < N" by (simp add: N_def)
  obtain e where e: "m * p = N + e" "e \<le> 2 ^ s"
    using lo hi unfolding N_def by (metis add_le_cancel_left le_Suc_ex)
  have ne: "n * e < N"
  proof (cases "n = 0")
    case True then show ?thesis using Npos by simp
  next
    case False
    have "n * e \<le> n * 2 ^ s" using e(2) by simp
    also have "\<dots> < 2 ^ 32 * 2 ^ s" using n by simp
    finally show ?thesis by (simp add: N_def power_add)
  qed
  have low: "q * N \<le> n * m"
  proof -
    have "q * N * p \<le> n * N" using nqr by (simp add: algebra_simps)
    also have "\<dots> \<le> n * (N + e)" by simp
    also have "\<dots> = n * m * p" by (simp add: e(1) [symmetric] mult.assoc)
    finally show ?thesis using p by simp
  qed
  have up: "n * m < (q + 1) * N"
  proof -
    have "n * m * p = n * (m * p)" by (simp add: mult.assoc)
    also have "\<dots> = n * N + n * e" by (simp add: e(1) distrib_left)
    also have "\<dots> < n * N + N" using ne by simp
    also have "\<dots> \<le> n * N + (p - r) * N"
    proof -
      have "1 \<le> p - r" using rp by arith
      then have "1 * N \<le> (p - r) * N" by (rule mult_le_mono1)
      then show ?thesis by simp
    qed
    also have "\<dots> = (n + (p - r)) * N" by (simp add: algebra_simps)
    also have "n + (p - r) = (q + 1) * p" using nqr rp by (simp add: algebra_simps)
    finally have "n * m * p < (q + 1) * N * p" by (simp add: algebra_simps)
    then show ?thesis using p by simp
  qed
  have "n * m div N = q"
    using low up Npos by (metis Suc_eq_plus1 div_nat_eqI mult.commute)
  then show ?thesis by (simp add: N_def q_def)
qed

lemma unat_magicNumberDivide:
  assumes "magic_valid p"
  shows "unat (magicNumberDivide n p) = unat n div unat (prime p)"
proof -
  have s: "unat (shift p) < 32" using assms by (simp add: magic_valid_def word_less_nat_alt)
  have s32: "unat (32 + shift p) = 32 + unat (shift p)"
    using s by (simp add: unat_word_ariths)
  have ppos: "0 < unat (prime p)" using assms by (simp add: magic_valid_def unat_gt_0)
  have nlt: "unat n < 2 ^ 32" using unsigned_less [of n] by simp
  have mlt: "unat (magic p) < 2 ^ 32" using unsigned_less [of "magic p"] by simp
  have prod_lt: "unat n * unat (magic p) < 2 ^ 64"
  proof -
    have "unat n * unat (magic p) < 2 ^ 32 * 2 ^ 32"
      using nlt mlt by (intro mult_strict_mono) simp_all
    then show ?thesis by simp
  qed
  have prod: "unat ((ucast n :: u64) * ucast (magic p)) = unat n * unat (magic p)"
    using prod_lt nlt mlt by (simp add: unat_word_ariths unsigned_ucast_eq take_bit_nat_eq_self)
  have q: "unat n * unat (magic p) div 2 ^ (32 + unat (shift p)) = unat n div unat (prime p)"
    using assms ppos nlt by (intro magic_div_nat) (simp_all add: magic_valid_def)
  have qlt: "unat n div unat (prime p) < 2 ^ 32"
    using nlt by (meson div_le_dividend le_less_trans)
  have "unat (drop_bit (unat (32 + shift p)) ((ucast n :: u64) * ucast (magic p)))
      = unat n div unat (prime p)"
    by (subst unat_drop_bit_eq) (simp only: drop_bit_eq_div prod s32 q)
  then have "unat (ucast (drop_bit (unat (32 + shift p)) ((ucast n :: u64) * ucast (magic p))) :: u32)
      = unat n div unat (prime p)"
    using qlt by (simp only: unsigned_ucast_eq) (simp add: take_bit_nat_eq_self)
  then show ?thesis
    by (simp only: magicNumberDivide_def Let_def)
qed

lemma magicNumberDivide_eq:
  assumes "magic_valid p"
  shows "magicNumberDivide n p = n div prime p"
  using unat_magicNumberDivide [OF assms, of n]
  by (simp add: word_unat_eq_iff unat_div)

lemma magicNumberRem_eq:
  assumes "magic_valid p"
  shows "magicNumberRem n p = n mod prime p"
  unfolding magicNumberRem_def Let_def magicNumberDivide_eq [OF assms]
  by (simp add: minus_div_mult_eq_mod)

text \<open>
  C4. For a \<^verbatim>\<open>PrimeInfo\<close> with valid constants and every 32-bit numerator,
  \<^verbatim>\<open>magicNumberDivide\<close> is the quotient and \<^verbatim>\<open>magicNumberRem\<close> the remainder of the division by
  the prime; the quotient is the 64-bit product of numerator and multiplier shifted right
  by \<open>32 + shift\<close> (nothing is lost in the product or in the cast back to 32 bits), and the
  remainder is the numerator minus quotient times prime. Also, for any constants with which
  \<^verbatim>\<open>magicNumberDivide\<close> is the quotient for every numerator, \<^verbatim>\<open>magicNumberRem\<close> is the remainder
  (the debug assertion holds).
\<close>

theorem magic_division_exact:
  "(magic_valid p \<longrightarrow>
      magicNumberDivide n p = n div prime p
    \<and> magicNumberRem n p = n mod prime p
    \<and> unat (magicNumberDivide n p) = unat n * unat (magic p) div 2 ^ (32 + unat (shift p))
    \<and> magicNumberRem n p = n - magicNumberDivide n p * prime p)
   \<and> ((\<forall>m. magicNumberDivide m p = m div prime p) \<longrightarrow> magicNumberRem n p = n mod prime p)"
proof (intro conjI impI)
  assume v: "magic_valid p"
  have ppos: "0 < unat (prime p)" using v by (simp add: magic_valid_def unat_gt_0)
  have q: "unat n * unat (magic p) div 2 ^ (32 + unat (shift p)) = unat n div unat (prime p)"
    using v ppos unsigned_less [of n]
    by (intro magic_div_nat) (simp_all add: magic_valid_def)
  show "magicNumberDivide n p = n div prime p" using v by (rule magicNumberDivide_eq)
  show "magicNumberRem n p = n mod prime p" using v by (rule magicNumberRem_eq)
  show "unat (magicNumberDivide n p) = unat n * unat (magic p) div 2 ^ (32 + unat (shift p))"
    using unat_magicNumberDivide [OF v, of n] q by simp
  show "magicNumberRem n p = n - magicNumberDivide n p * prime p"
    by (simp add: magicNumberRem_def)
next
  assume "\<forall>m. magicNumberDivide m p = m div prime p"
  then show "magicNumberRem n p = n mod prime p"
    by (simp add: magicNumberRem_def minus_div_mult_eq_mod)
qed

theorem magic_division_exact_witness:
  "magic_valid \<lparr>prime = 9, magic = 0x38e38e39, shift = 1\<rparr>
   \<and> magicNumberDivide 100 \<lparr>prime = 9, magic = 0x38e38e39, shift = 1\<rparr> = 11
   \<and> magicNumberRem 100 \<lparr>prime = 9, magic = 0x38e38e39, shift = 1\<rparr> = 1"
proof -
  have v: "magic_valid \<lparr>prime = 9, magic = 0x38e38e39, shift = 1\<rparr>"
    by (simp add: magic_valid_def)
  show ?thesis
    using v magic_division_exact [of "\<lparr>prime = 9, magic = 0x38e38e39, shift = 1\<rparr>" 100]
    by simp
qed

section \<open>The scan of the prime table\<close>

declare NextPrime_loop.simps [simp del]

lemma NextPrime_loop_Inr:
  "NextPrime_loop tbl n i = Inr p \<longleftrightarrow>
     (\<exists>j. i \<le> j \<and> j < length tbl \<and> p = tbl ! j \<and> n \<le> prime (tbl ! j)
          \<and> (\<forall>l. i \<le> l \<and> l < j \<longrightarrow> prime (tbl ! l) < n))"
proof (induction tbl n i rule: NextPrime_loop.induct)
  case (1 tbl number i)
  show ?case
  proof (cases "i < length tbl")
    case False
    then show ?thesis by (subst NextPrime_loop.simps) auto
  next
    case inb: True
    show ?thesis
    proof (cases "number \<le> prime (tbl ! i)")
      case True
      have "NextPrime_loop tbl number i = Inr (tbl ! i)"
        using inb True by (subst NextPrime_loop.simps) simp
      moreover have "(\<exists>j. i \<le> j \<and> j < length tbl \<and> p = tbl ! j \<and> number \<le> prime (tbl ! j)
          \<and> (\<forall>l. i \<le> l \<and> l < j \<longrightarrow> prime (tbl ! l) < number)) \<longleftrightarrow> p = tbl ! i"
      proof
        assume "\<exists>j. i \<le> j \<and> j < length tbl \<and> p = tbl ! j \<and> number \<le> prime (tbl ! j)
          \<and> (\<forall>l. i \<le> l \<and> l < j \<longrightarrow> prime (tbl ! l) < number)"
        then obtain j where j: "i \<le> j" "p = tbl ! j"
          "\<forall>l. i \<le> l \<and> l < j \<longrightarrow> prime (tbl ! l) < number" by blast
        have "j = i"
        proof (rule ccontr)
          assume "j \<noteq> i"
          then have "i < j" using j(1) by simp
          then have "prime (tbl ! i) < number" using j(3) by simp
          then show False using True by simp
        qed
        then show "p = tbl ! i" using j(2) by simp
      next
        assume "p = tbl ! i"
        then show "\<exists>j. i \<le> j \<and> j < length tbl \<and> p = tbl ! j \<and> number \<le> prime (tbl ! j)
          \<and> (\<forall>l. i \<le> l \<and> l < j \<longrightarrow> prime (tbl ! l) < number)"
          using inb True by auto
      qed
      ultimately show ?thesis by auto
    next
      case False
      have step: "NextPrime_loop tbl number i = NextPrime_loop tbl number (i + 1)"
        using inb False by (subst NextPrime_loop.simps) simp
      have "(\<exists>j. i \<le> j \<and> j < length tbl \<and> p = tbl ! j \<and> number \<le> prime (tbl ! j)
          \<and> (\<forall>l. i \<le> l \<and> l < j \<longrightarrow> prime (tbl ! l) < number)) \<longleftrightarrow>
        (\<exists>j. i + 1 \<le> j \<and> j < length tbl \<and> p = tbl ! j \<and> number \<le> prime (tbl ! j)
          \<and> (\<forall>l. i + 1 \<le> l \<and> l < j \<longrightarrow> prime (tbl ! l) < number))" (is "?L \<longleftrightarrow> ?R")
      proof
        assume ?L
        then obtain j where j: "i \<le> j" "j < length tbl" "p = tbl ! j" "number \<le> prime (tbl ! j)"
          "\<forall>l. i \<le> l \<and> l < j \<longrightarrow> prime (tbl ! l) < number" by blast
        have "j \<noteq> i" using j(4) False by auto
        then have "i + 1 \<le> j" using j(1) by simp
        then show ?R using j by (intro exI [of _ j]) simp
      next
        assume ?R
        then obtain j where j: "i + 1 \<le> j" "j < length tbl" "p = tbl ! j" "number \<le> prime (tbl ! j)"
          "\<forall>l. i + 1 \<le> l \<and> l < j \<longrightarrow> prime (tbl ! l) < number" by blast
        have "\<forall>l. i \<le> l \<and> l < j \<longrightarrow> prime (tbl ! l) < number"
        proof (intro allI impI)
          fix l assume l: "i \<le> l \<and> l < j"
          show "prime (tbl ! l) < number"
          proof (cases "l = i")
            case True then show ?thesis using False by simp
          next
            case False then show ?thesis using l j(5) by simp
          qed
        qed
        then show ?L using j by (intro exI [of _ j]) simp
      qed
      then show ?thesis using step "1.IH" [OF inb False] by simp
    qed
  qed
qed

lemma NextPrime_loop_Inl:
  "NextPrime_loop tbl n i = Inl e \<longleftrightarrow>
     e = NoMemory \<and> (\<forall>l. i \<le> l \<and> l < length tbl \<longrightarrow> prime (tbl ! l) < n)"
proof (induction tbl n i rule: NextPrime_loop.induct)
  case (1 tbl number i)
  show ?case
  proof (cases "i < length tbl")
    case False
    then show ?thesis by (subst NextPrime_loop.simps) auto
  next
    case inb: True
    show ?thesis
    proof (cases "number \<le> prime (tbl ! i)")
      case True
      have "NextPrime_loop tbl number i = Inr (tbl ! i)"
        using inb True by (subst NextPrime_loop.simps) simp
      moreover have "\<not> (\<forall>l. i \<le> l \<and> l < length tbl \<longrightarrow> prime (tbl ! l) < number)"
        using inb True by (auto intro!: exI [of _ i])
      ultimately show ?thesis by simp
    next
      case False
      have step: "NextPrime_loop tbl number i = NextPrime_loop tbl number (i + 1)"
        using inb False by (subst NextPrime_loop.simps) simp
      have "(\<forall>l. i \<le> l \<and> l < length tbl \<longrightarrow> prime (tbl ! l) < number) \<longleftrightarrow>
            (\<forall>l. i + 1 \<le> l \<and> l < length tbl \<longrightarrow> prime (tbl ! l) < number)" (is "?L \<longleftrightarrow> ?R")
      proof
        assume ?L then show ?R by simp
      next
        assume r: ?R
        show ?L
        proof (intro allI impI)
          fix l assume l: "i \<le> l \<and> l < length tbl"
          show "prime (tbl ! l) < number"
          proof (cases "l = i")
            case True then show ?thesis using False by simp
          next
            case False then show ?thesis using l r by simp
          qed
        qed
      qed
      then show ?thesis using step "1.IH" [OF inb False] by simp
    qed
  qed
qed

lemma NextPrime_Inr:
  "NextPrime E n = Inr p \<longleftrightarrow>
     (\<exists>j<length (primeInfo E). p = primeInfo E ! j \<and> n \<le> prime p
          \<and> (\<forall>l<j. prime (primeInfo E ! l) < n))"
  unfolding NextPrime_def NextPrime_loop_Inr by auto

lemma NextPrime_Inl:
  "NextPrime E n = Inl e \<longleftrightarrow> e = NoMemory \<and> (\<forall>q\<in>set (primeInfo E). prime q < n)"
  unfolding NextPrime_def NextPrime_loop_Inl by (simp add: all_set_conv_all_nth)

lemma NextPrime_least:
  assumes asc: "sorted_wrt (\<lambda>a b. prime a < prime b) (primeInfo E)"
    and r: "NextPrime E n = Inr p" and q: "q \<in> set (primeInfo E)" and nq: "n \<le> prime q"
  shows "prime p \<le> prime q"
proof -
  from r obtain j where j: "j < length (primeInfo E)" "p = primeInfo E ! j"
    "\<forall>l<j. prime (primeInfo E ! l) < n"
    by (auto simp: NextPrime_Inr)
  from q obtain l where l: "l < length (primeInfo E)" "q = primeInfo E ! l"
    by (auto simp: in_set_conv_nth)
  have "\<not> l < j" using j(3) l(2) nq by auto
  then consider "l = j" | "j < l" by linarith
  then show ?thesis
  proof cases
    case 1
    then show ?thesis using j(2) l(2) by simp
  next
    case 2
    then have "prime (primeInfo E ! j) < prime (primeInfo E ! l)"
      using sorted_wrt_nth_less [OF asc 2 l(1)] by simp
    then show ?thesis using j(2) l(2) by simp
  qed
qed

section \<open>NextPrime\<close>

text \<open>
  C8. \<^verbatim>\<open>NextPrime(n)\<close> returns the first entry of the prime table whose prime is at least
  \<open>n\<close> (every entry before it has a smaller prime), and when every entry is smaller it ends
  in \<^verbatim>\<open>Behavior::NoMemory()\<close>; no other value is ever returned. When the table is strictly
  ascending, the prime returned is the smallest prime of the table that is at least \<open>n\<close>.
\<close>

theorem NextPrime_first_entry:
  "(NextPrime E n = Inr p \<longleftrightarrow>
      (\<exists>j<length (primeInfo E). p = primeInfo E ! j \<and> n \<le> prime p
          \<and> (\<forall>l<j. prime (primeInfo E ! l) < n)))
   \<and> (NextPrime E n = Inl e \<longleftrightarrow> e = NoMemory \<and> (\<forall>q\<in>set (primeInfo E). prime q < n))
   \<and> (NextPrime E n = Inr p \<longrightarrow> p \<in> set (primeInfo E) \<and> n \<le> prime p)
   \<and> (sorted_wrt (\<lambda>a b. prime a < prime b) (primeInfo E) \<and> NextPrime E n = Inr p
        \<longrightarrow> (\<forall>q\<in>set (primeInfo E). n \<le> prime q \<longrightarrow> prime p \<le> prime q))"
proof (intro conjI)
  show "NextPrime E n = Inr p \<longleftrightarrow>
      (\<exists>j<length (primeInfo E). p = primeInfo E ! j \<and> n \<le> prime p
          \<and> (\<forall>l<j. prime (primeInfo E ! l) < n))"
    by (rule NextPrime_Inr)
  show "NextPrime E n = Inl e \<longleftrightarrow> e = NoMemory \<and> (\<forall>q\<in>set (primeInfo E). prime q < n)"
    by (rule NextPrime_Inl)
  show "NextPrime E n = Inr p \<longrightarrow> p \<in> set (primeInfo E) \<and> n \<le> prime p"
    by (auto simp: NextPrime_Inr)
  show "sorted_wrt (\<lambda>a b. prime a < prime b) (primeInfo E) \<and> NextPrime E n = Inr p
        \<longrightarrow> (\<forall>q\<in>set (primeInfo E). n \<le> prime q \<longrightarrow> prime p \<le> prime q)"
    using NextPrime_least [of E n p] by blast
qed

theorem NextPrime_first_entry_witness:
  "NextPrime E0 10 = Inr \<lparr>prime = 23, magic = 0xb21642c9, shift = 4\<rparr>
   \<and> NextPrime E0 24 = Inl NoMemory"
proof -
  let ?p = "\<lparr>prime = 23, magic = 0xb21642c9, shift = 4\<rparr>"
  have "\<exists>j<length (primeInfo E0). ?p = primeInfo E0 ! j \<and> 10 \<le> prime ?p
          \<and> (\<forall>l<j. prime (primeInfo E0 ! l) < 10)"
    by (intro exI [of _ 1]) (simp add: E0_def)
  then have a: "NextPrime E0 10 = Inr ?p"
    using NextPrime_first_entry [of E0 10 ?p NoMemory] by blast
  have "\<forall>q\<in>set (primeInfo E0). prime q < 24"
    by (simp add: E0_def)
  then have b: "NextPrime E0 24 = Inl NoMemory"
    using NextPrime_first_entry [of E0 24 ?p NoMemory] by blast
  show ?thesis using a b by simp
qed

section \<open>The size computed by Grow\<close>




lemma Grow_new_E0:
  "Grow E0 (SimplerHashTable_new Map.empty) =
     Some (Inr ((), \<lparr>heap = Map.empty, m_table = Some (replicate 9 None),
       m_tableSizeInfo = \<lparr>prime = 9, magic = 0x38e38e39, shift = 1\<rparr>,
       m_tableCount = 0, m_tableMax = 6\<rparr>))"
  by (simp add: Grow_def Reallocate_def NextPrime_def NextPrime_loop.simps E0_def
      SimplerHashTable_new_def)


subsection \<open>A wrap-around that the comparison with the count does not see\<close>






section \<open>Chains\<close>

lemma chain_None [simp]: "chain h None as \<longleftrightarrow> as = []"
  by (cases as) simp_all

lemma chain_Some:
  "chain h (Some a) as \<longleftrightarrow> (\<exists>n bs. as = a # bs \<and> h a = Some n \<and> chain h (m_next n) bs)"
  by (cases as) (auto split: option.splits)

lemma chain_unique: "chain h p as \<Longrightarrow> chain h p bs \<Longrightarrow> as = bs"
proof (induction as arbitrary: p bs)
  case Nil
  then show ?case by simp
next
  case (Cons a as)
  then show ?case by (cases bs) (auto split: option.splits)
qed

lemma chain_live: "chain h p as \<Longrightarrow> a \<in> set as \<Longrightarrow> \<exists>n. h a = Some n"
  by (induction as arbitrary: p) (auto split: option.splits)

lemma chain_frame:
  "chain h p as \<Longrightarrow> (\<forall>a\<in>set as. map_option m_next (h' a) = map_option m_next (h a))
     \<Longrightarrow> chain h' p as"
proof (induction as arbitrary: p)
  case Nil
  then show ?case by simp
next
  case (Cons a as)
  from Cons.prems obtain n where n: "p = Some a" "h a = Some n" "chain h (m_next n) as"
    by (auto split: option.splits)
  from Cons.prems(2) n(2) obtain n' where n': "h' a = Some n'" "m_next n' = m_next n"
    by (auto simp: map_option_case split: option.splits)
  have "chain h' (m_next n) as" using Cons.IH [OF n(3)] Cons.prems(2) by simp
  then show ?case using n n' by simp
qed

lemma chain_suffix:
  "chain h p (as @ bs) \<Longrightarrow> \<exists>q. chain h q bs"
  by (induction as arbitrary: p) (auto split: option.splits)

lemma chain_head_notin_tail:
  assumes "h a = Some n" and "chain h (m_next n) as"
  shows "a \<notin> set as"
proof
  assume "a \<in> set as"
  then obtain xs ys where as: "as = xs @ a # ys" by (auto simp: in_set_conv_decomp)
  from assms(2) as obtain q where "chain h q (a # ys)" using chain_suffix by blast
  then have "chain h (m_next n) ys" using assms(1) by simp
  then have "ys = as" using assms(2) chain_unique by blast
  then show False using as by simp
qed

lemma chain_distinct: "chain h p as \<Longrightarrow> distinct as"
proof (induction as arbitrary: p)
  case Nil
  then show ?case by simp
next
  case (Cons a as)
  from Cons.prems obtain n where n: "h a = Some n" "chain h (m_next n) as"
    by (auto split: option.splits)
  show ?case using Cons.IH [OF n(2)] chain_head_notin_tail [OF n] by simp
qed

section \<open>The search loops on a chain\<close>

lemma chain_search_chain:
  "chain h p as \<Longrightarrow> chain_search eq h k p = Some (Inr (find (matches eq h k) as))"
proof (induction as arbitrary: p)
  case Nil
  then show ?case by (subst chain_search.simps) simp
next
  case (Cons a as)
  from Cons.prems obtain n where n: "p = Some a" "h a = Some n" "chain h (m_next n) as"
    by (auto split: option.splits)
  have m: "matches eq h k a = eq k (m_key n)" using n by (simp add: matches_def)
  show ?case
    using n Cons.IH [OF n(3)]
    by (subst chain_search.simps) (simp add: m)
qed

section \<open>The buckets of a table\<close>

lemma choose_list:
  assumes "\<forall>i<n. \<exists>x. P i x"
  shows "\<exists>xs. length xs = n \<and> (\<forall>i<n. P i (xs ! i))"
proof -
  from assms obtain f where f: "\<forall>i<n. P i (f i)" by metis
  show ?thesis
    by (rule exI [of _ "map f [0..<n]"]) (simp add: f)
qed

lemma table_inv_buckets:
  assumes "table_inv E s" and "m_table s = Some bs"
  shows "\<exists>ass. buckets_ok E s bs ass"
proof -
  from assms have v: "magic_valid (m_tableSizeInfo s)" "length bs = unat (prime (m_tableSizeInfo s))"
    and ch: "\<forall>i<length bs. \<exists>as. chain (heap s) (bs ! i) as \<and>
             (\<forall>a\<in>set as. \<forall>n. heap s a = Some n \<longrightarrow>
                unat (magicNumberRem (GetHashCode E (m_key n)) (m_tableSizeInfo s)) = i)"
    by (simp_all add: table_inv_def)
  from choose_list [OF ch] obtain ass where "length ass = length bs"
    "\<forall>i<length bs. chain (heap s) (bs ! i) (ass ! i) \<and>
             (\<forall>a\<in>set (ass ! i). \<forall>n. heap s a = Some n \<longrightarrow>
                unat (magicNumberRem (GetHashCode E (m_key n)) (m_tableSizeInfo s)) = i)"
    by blast
  then show ?thesis using v assms(2) unfolding buckets_ok_def chains_ok_def by blast
qed

lemma buckets_ok_nodes:
  assumes "buckets_ok E s bs ass"
  shows "table_nodes s = nodes_of ass"
proof (intro set_eqI iffI)
  fix a assume "a \<in> table_nodes s"
  then obtain i as where i: "i < length bs" "chain (heap s) (bs ! i) as" "a \<in> set as"
    using assms by (auto simp: table_nodes_def buckets_ok_def chains_ok_def)
  have "chain (heap s) (bs ! i) (ass ! i)" using assms i(1) by (simp add: buckets_ok_def chains_ok_def)
  then have "as = ass ! i" using i(2) chain_unique by blast
  then show "a \<in> nodes_of ass"
    using i assms by (auto simp: buckets_ok_def chains_ok_def nodes_of_def)
next
  fix a assume "a \<in> nodes_of ass"
  then obtain i where i: "i < length ass" "a \<in> set (ass ! i)" by (auto simp: nodes_of_def)
  have "i < length bs" "chain (heap s) (bs ! i) (ass ! i)" "m_table s = Some bs"
    using assms i(1) by (simp_all add: buckets_ok_def chains_ok_def)
  then show "a \<in> table_nodes s"
    using i(2) unfolding table_nodes_def by blast
qed

lemma buckets_ok_finite:
  assumes "buckets_ok E s bs ass"
  shows "finite (table_nodes s)"
  unfolding buckets_ok_nodes [OF assms] nodes_of_def by simp

lemma buckets_ok_live:
  assumes "buckets_ok E s bs ass" and "a \<in> table_nodes s"
  shows "\<exists>n. heap s a = Some n"
proof -
  from assms obtain i where i: "i < length ass" "a \<in> set (ass ! i)"
    by (auto simp: buckets_ok_nodes [OF assms(1)] nodes_of_def)
  then have "chain (heap s) (bs ! i) (ass ! i)" using assms(1) by (simp add: buckets_ok_def chains_ok_def)
  then show ?thesis using i(2) chain_live by blast
qed

lemma buckets_ok_disjoint:
  assumes "buckets_ok E s bs ass" and "i < length ass" and "j < length ass"
    and "a \<in> set (ass ! i)" and "a \<in> set (ass ! j)"
  shows "i = j"
proof -
  have "chain (heap s) (bs ! i) (ass ! i)" using assms by (simp add: buckets_ok_def chains_ok_def)
  then obtain n where n: "heap s a = Some n" using assms(4) chain_live by blast
  have "unat (magicNumberRem (GetHashCode E (m_key n)) (m_tableSizeInfo s)) = i"
    using assms(1,2,4) n by (auto simp: buckets_ok_def chains_ok_def)
  moreover have "unat (magicNumberRem (GetHashCode E (m_key n)) (m_tableSizeInfo s)) = j"
    using assms(1,3,5) n by (auto simp: buckets_ok_def chains_ok_def)
  ultimately show ?thesis by simp
qed

lemma index_in_range:
  assumes "magic_valid p"
  shows "unat (magicNumberRem x p) < unat (prime p)"
proof -
  have "prime p \<noteq> 0" using assms by (simp add: magic_valid_def)
  then have "x mod prime p < prime p" by (simp add: word_mod_less_divisor word_neq_0_conv)
  then show ?thesis by (simp add: magicNumberRem_eq [OF assms] word_less_nat_alt)
qed

lemma buckets_ok_index:
  assumes "buckets_ok E s bs ass"
  shows "unat (GetIndexForKey E k s) < length bs"
  using assms index_in_range [of "m_tableSizeInfo s" "GetHashCode E k"]
  by (simp add: buckets_ok_def chains_ok_def GetIndexForKey_def)

text \<open>A node whose key matches \<open>k\<close> sits in the bucket of \<open>k\<close>.\<close>

lemma match_in_bucket:
  assumes ok: "buckets_ok E s bs ass" and kf: "KeyFuncs_ok E"
    and i: "i < length ass" and a: "a \<in> set (ass ! i)" and m: "matches (Equals E) (heap s) k a"
  shows "i = unat (GetIndexForKey E k s)"
proof -
  from m obtain n where n: "heap s a = Some n" "Equals E k (m_key n)"
    by (auto simp: matches_def split: option.splits)
  have "GetHashCode E k = GetHashCode E (m_key n)"
    using kf n(2) unfolding KeyFuncs_ok_def by blast
  moreover have "unat (magicNumberRem (GetHashCode E (m_key n)) (m_tableSizeInfo s)) = i"
    using ok i a n(1) by (auto simp: buckets_ok_def chains_ok_def)
  ultimately show ?thesis by (simp add: GetIndexForKey_def)
qed

text \<open>Two nodes of the table that match the same key are the same node.\<close>

lemma match_unique:
  assumes kf: "KeyFuncs_ok E" and nd: "no_duplicates E s"
    and a: "a \<in> table_nodes s" "matches (Equals E) (heap s) k a"
    and b: "b \<in> table_nodes s" "matches (Equals E) (heap s) k b"
  shows "a = b"
proof (rule ccontr)
  assume ne: "a \<noteq> b"
  from a(2) obtain n where n: "heap s a = Some n" "Equals E k (m_key n)"
    by (auto simp: matches_def split: option.splits)
  from b(2) obtain n' where n': "heap s b = Some n'" "Equals E k (m_key n')"
    by (auto simp: matches_def split: option.splits)
  have "Equals E (m_key n) k" using kf n(2) unfolding KeyFuncs_ok_def by blast
  then have "Equals E (m_key n) (m_key n')" using kf n'(2) unfolding KeyFuncs_ok_def by blast
  then show False using nd ne a(1) b(1) n(1) n'(1) unfolding no_duplicates_def by blast
qed

section \<open>FindNode and Lookup on a table that satisfies the invariant\<close>

lemma FindNode_uninit:
  assumes "table_inv E s" and "m_table s = None"
  shows "FindNode E k s = Some (Inr None)" and "table_nodes s = {}"
  using assms by (simp_all add: table_inv_def FindNode_def table_nodes_def)

lemma FindNode_buckets:
  assumes ok: "buckets_ok E s bs ass"
  shows "FindNode E k s =
     Some (Inr (find (matches (Equals E) (heap s) k) (ass ! unat (GetIndexForKey E k s))))"
proof -
  let ?i = "unat (GetIndexForKey E k s)"
  have i: "?i < length bs" using ok by (rule buckets_ok_index)
  have p: "prime (m_tableSizeInfo s) \<noteq> 0" using ok by (simp add: buckets_ok_def chains_ok_def magic_valid_def)
  have ch: "chain (heap s) (bs ! ?i) (ass ! ?i)" using ok i by (simp add: buckets_ok_def chains_ok_def)
  have t: "m_table s = Some bs" using ok by (simp add: buckets_ok_def chains_ok_def)
  show ?thesis
  proof (cases "bs ! ?i")
    case None
    then have "ass ! ?i = []" using ch by simp
    then show ?thesis using None i p t by (simp add: FindNode_def Let_def)
  next
    case (Some a)
    then show ?thesis
      using i p t chain_search_chain [OF ch, of "Equals E" k]
      by (simp add: FindNode_def Let_def)
  qed
qed

lemma bucket_find:
  assumes ok: "buckets_ok E s bs ass" and kf: "KeyFuncs_ok E" and nd: "no_duplicates E s"
  shows "find (matches (Equals E) (heap s) k) (ass ! unat (GetIndexForKey E k s)) = Some a
           \<longleftrightarrow> a \<in> table_nodes s \<and> matches (Equals E) (heap s) k a"
proof
  let ?i = "unat (GetIndexForKey E k s)"
  let ?r = "find (matches (Equals E) (heap s) k) (ass ! ?i)"
  have i: "?i < length ass" using buckets_ok_index [OF ok] ok by (simp add: buckets_ok_def chains_ok_def)
  {
    assume "?r = Some a"
    then have "a \<in> set (ass ! ?i)" "matches (Equals E) (heap s) k a"
      by (auto simp: find_Some_iff)
    then show "a \<in> table_nodes s \<and> matches (Equals E) (heap s) k a"
      using i by (auto simp: buckets_ok_nodes [OF ok] nodes_of_def)
  next
    assume a: "a \<in> table_nodes s \<and> matches (Equals E) (heap s) k a"
    then obtain j where j: "j < length ass" "a \<in> set (ass ! j)"
      by (auto simp: buckets_ok_nodes [OF ok] nodes_of_def)
    have "j = ?i" using match_in_bucket [OF ok kf j] a by simp
    then have "a \<in> set (ass ! ?i)" using j by simp
    then obtain b where b: "?r = Some b" using a
      by (cases ?r) (auto simp: find_None_iff)
    then have "b \<in> set (ass ! ?i)" "matches (Equals E) (heap s) k b"
      by (auto simp: find_Some_iff)
    then have "b \<in> table_nodes s" using i by (auto simp: buckets_ok_nodes [OF ok] nodes_of_def)
    then have "a = b" using match_unique [OF kf nd] a \<open>matches (Equals E) (heap s) k b\<close> by blast
    then show "?r = Some a" using b by simp
  }
qed

lemma FindNode_spec:
  assumes inv: "table_inv E s" and kf: "KeyFuncs_ok E"
  shows "\<exists>r. FindNode E k s = Some (Inr r) \<and>
           (\<forall>a. r = Some a \<longleftrightarrow> a \<in> table_nodes s \<and> matches (Equals E) (heap s) k a)"
proof (cases "m_table s")
  case None
  then show ?thesis using FindNode_uninit [OF inv None] by simp
next
  case (Some bs)
  from table_inv_buckets [OF inv Some] obtain ass where ok: "buckets_ok E s bs ass" ..
  have nd: "no_duplicates E s" using inv Some by (simp add: table_inv_def)
  show ?thesis using FindNode_buckets [OF ok, of k] bucket_find [OF ok kf nd, of k] by blast
qed

section \<open>Moving the nodes into a new bucket array\<close>

declare move_buckets.simps [simp del]

lemma chain_same: "chain h p as \<Longrightarrow> (\<forall>a\<in>set as. h' a = h a) \<Longrightarrow> chain h' p as"
  by (erule chain_frame) simp

lemma nodes_of_push:
  assumes "i < length ass"
  shows "nodes_of (ass[i := a # ass ! i]) = insert a (nodes_of ass)"
  using assms by (auto simp: nodes_of_def nth_list_update split: if_splits)

lemma node_data_relink:
  assumes "h a = Some n"
  shows "node_data (h(a \<mapsto> n\<lparr>m_next := q\<rparr>)) = node_data h"
  using assms by (auto simp: node_data_def fun_eq_iff)

text \<open>Pushing a node on the head of the chain of its bucket keeps the array well formed.\<close>

lemma chains_ok_push:
  assumes ok: "chains_ok E np h nt nss"
    and fresh: "a \<notin> nodes_of nss"
    and i: "i = unat (magicNumberRem (GetHashCode E (m_key n)) np)"
    and nx: "m_next n = nt ! i"
  shows "chains_ok E np (h(a \<mapsto> n)) (nt[i := Some a]) (nss[i := a # nss ! i])"
proof -
  let ?h = "h(a \<mapsto> n)"
  have v: "magic_valid np" and len: "length nt = unat (prime np)" "length nss = length nt"
    using ok by (simp_all add: chains_ok_def)
  have ilt: "i < length nt" using index_in_range [OF v] len i by simp
  have notin: "a \<notin> set (nss ! j)" if "j < length nt" for j
    using fresh that len by (auto simp: nodes_of_def)
  have frame: "chain ?h (nt ! j) (nss ! j)" if "j < length nt" for j
  proof -
    have "chain h (nt ! j) (nss ! j)" using ok that by (simp add: chains_ok_def)
    then show ?thesis using notin [OF that] by (elim chain_same) auto
  qed
  have "chain ?h ((nt[i := Some a]) ! j) ((nss[i := a # nss ! i]) ! j)
      \<and> (\<forall>b\<in>set ((nss[i := a # nss ! i]) ! j). \<forall>m. ?h b = Some m \<longrightarrow>
             unat (magicNumberRem (GetHashCode E (m_key m)) np) = j)"
    if j: "j < length nt" for j
  proof (cases "j = i")
    case True
    have old: "\<forall>b\<in>set (nss ! i). \<forall>m. h b = Some m \<longrightarrow>
             unat (magicNumberRem (GetHashCode E (m_key m)) np) = i"
      using ok ilt by (simp add: chains_ok_def)
    show ?thesis
      using True ilt len frame [OF ilt] notin [OF ilt] old i nx
      by (auto simp: nth_list_update)
  next
    case False
    have old: "\<forall>b\<in>set (nss ! j). \<forall>m. h b = Some m \<longrightarrow>
             unat (magicNumberRem (GetHashCode E (m_key m)) np) = j"
      using ok j by (simp add: chains_ok_def)
    show ?thesis
      using False j len frame [OF j] notin [OF j] old
      by (auto simp: nth_list_update)
  qed
  then show ?thesis using v len by (simp add: chains_ok_def)
qed

lemma move_chain_ok:
  assumes "chains_ok E np h nt nss" and "chain h p as" and "set as \<inter> nodes_of nss = {}"
  shows "\<exists>h' nt' nss'. move_chain E np h nt p = Some (Inr (h', nt'))
           \<and> chains_ok E np h' nt' nss'
           \<and> nodes_of nss' = nodes_of nss \<union> set as
           \<and> node_data h' = node_data h
           \<and> (\<forall>b. b \<notin> set as \<longrightarrow> h' b = h b)"
  using assms
proof (induction as arbitrary: h nt nss p)
  case Nil
  then have "move_chain E np h nt p = Some (Inr (h, nt))"
    by (subst move_chain.simps) simp
  then show ?case using Nil.prems(1) by auto
next
  case (Cons a as)
  from Cons.prems(2) obtain n where n: "p = Some a" "h a = Some n" "chain h (m_next n) as"
    by (auto split: option.splits)
  define i where "i = unat (magicNumberRem (GetHashCode E (m_key n)) np)"
  define h1 where "h1 = h(a \<mapsto> n\<lparr>m_next := nt ! i\<rparr>)"
  define nt1 where "nt1 = nt[i := Some a]"
  define nss1 where "nss1 = nss[i := a # nss ! i]"
  have v: "magic_valid np" and len: "length nt = unat (prime np)" "length nss = length nt"
    using Cons.prems(1) by (simp_all add: chains_ok_def)
  have ilt: "i < length nt" using index_in_range [OF v] len i_def by simp
  have fresh: "a \<notin> nodes_of nss" using Cons.prems(3) by auto
  have notin: "a \<notin> set as" using chain_head_notin_tail [OF n(2,3)] .
  have ok1: "chains_ok E np h1 nt1 nss1"
    unfolding h1_def nt1_def nss1_def
    using chains_ok_push [OF Cons.prems(1) fresh, of i "n\<lparr>m_next := nt ! i\<rparr>"] i_def by simp
  have ch1: "chain h1 (m_next n) as"
    using n(3) notin unfolding h1_def by (elim chain_same) auto
  have nodes1: "nodes_of nss1 = insert a (nodes_of nss)"
    unfolding nss1_def using ilt len by (simp add: nodes_of_push)
  have disj1: "set as \<inter> nodes_of nss1 = {}"
    using Cons.prems(3) notin nodes1 by auto
  from Cons.IH [OF ok1 ch1 disj1] obtain h' nt' nss' where
    r: "move_chain E np h1 nt1 (m_next n) = Some (Inr (h', nt'))"
       "chains_ok E np h' nt' nss'"
       "nodes_of nss' = nodes_of nss1 \<union> set as"
       "node_data h' = node_data h1"
       "\<forall>b. b \<notin> set as \<longrightarrow> h' b = h1 b"
    by blast
  have step: "move_chain E np h nt p = move_chain E np h1 nt1 (m_next n)"
    using n ilt unfolding h1_def nt1_def i_def
    by (subst move_chain.simps) (simp add: Let_def)
  have nd: "node_data h1 = node_data h"
    unfolding h1_def using n(2) by (rule node_data_relink)
  have "\<forall>b. b \<notin> set (a # as) \<longrightarrow> h' b = h b"
    using r(5) by (auto simp: h1_def)
  then show ?case
    using step r nodes1 nd by auto
qed

lemma move_buckets_ok:
  assumes "chains_ok E np h nt nss"
    and "length bs = n" and "length ass = n" and "i \<le> n"
    and "\<forall>j. i \<le> j \<and> j < n \<longrightarrow> chain h (bs ! j) (ass ! j)"
    and "\<forall>j<n. \<forall>j'<n. j \<noteq> j' \<longrightarrow> set (ass ! j) \<inter> set (ass ! j') = {}"
    and "nodes_of nss = (\<Union>j<i. set (ass ! j))"
  shows "\<exists>h' nt' nss'. move_buckets E np (Some bs) n i h nt = Some (Inr (h', nt'))
           \<and> chains_ok E np h' nt' nss'
           \<and> nodes_of nss' = nodes_of ass
           \<and> node_data h' = node_data h
           \<and> (\<forall>b. b \<notin> nodes_of ass \<longrightarrow> h' b = h b)"
  using assms
proof (induction "n - i" arbitrary: i h nt nss)
  case 0
  then have "i = n" by simp
  then have "move_buckets E np (Some bs) n i h nt = Some (Inr (h, nt))"
    by (subst move_buckets.simps) simp
  moreover have "nodes_of nss = nodes_of ass"
    using "0.prems"(3,7) \<open>i = n\<close> by (simp add: nodes_of_def)
  ultimately show ?case using "0.prems"(1) by auto
next
  case (Suc d)
  then have ilt: "i < n" by simp
  have ch: "chain h (bs ! i) (ass ! i)" using Suc.prems(5) ilt by simp
  have disj: "set (ass ! i) \<inter> nodes_of nss = {}"
    using Suc.prems(6,7) ilt by (auto simp: disjoint_iff) 
  from move_chain_ok [OF Suc.prems(1) ch disj] obtain h1 nt1 nss1 where
    r1: "move_chain E np h nt (bs ! i) = Some (Inr (h1, nt1))"
        "chains_ok E np h1 nt1 nss1"
        "nodes_of nss1 = nodes_of nss \<union> set (ass ! i)"
        "node_data h1 = node_data h"
        "\<forall>b. b \<notin> set (ass ! i) \<longrightarrow> h1 b = h b"
    by blast
  have d: "d = n - (i + 1)" using Suc.hyps(2) by simp
  have le: "i + 1 \<le> n" using ilt by simp
  have rest: "\<forall>j. i + 1 \<le> j \<and> j < n \<longrightarrow> chain h1 (bs ! j) (ass ! j)"
  proof (intro allI impI)
    fix j assume j: "i + 1 \<le> j \<and> j < n"
    then have "chain h (bs ! j) (ass ! j)" using Suc.prems(5) by simp
    moreover have "set (ass ! j) \<inter> set (ass ! i) = {}"
      using Suc.prems(6) j ilt by (metis Suc_eq_plus1 not_less_eq_eq order_refl)
    ultimately show "chain h1 (bs ! j) (ass ! j)"
      using r1(5) by (elim chain_same) auto
  qed
  have nodes1: "nodes_of nss1 = (\<Union>j<i + 1. set (ass ! j))"
    using r1(3) Suc.prems(7) by (auto simp: less_Suc_eq)
  from Suc.hyps(1) [OF d r1(2) Suc.prems(2,3) le rest Suc.prems(6) nodes1]
  obtain h' nt' nss' where
    r: "move_buckets E np (Some bs) n (i + 1) h1 nt1 = Some (Inr (h', nt'))"
       "chains_ok E np h' nt' nss'"
       "nodes_of nss' = nodes_of ass"
       "node_data h' = node_data h1"
       "\<forall>b. b \<notin> nodes_of ass \<longrightarrow> h' b = h1 b"
    by blast
  have step: "move_buckets E np (Some bs) n i h nt = move_buckets E np (Some bs) n (i + 1) h1 nt1"
    using ilt Suc.prems(2) r1(1) by (subst move_buckets.simps) simp
  have "\<forall>b. b \<notin> nodes_of ass \<longrightarrow> h' b = h b"
  proof (intro allI impI)
    fix b assume b: "b \<notin> nodes_of ass"
    then have "b \<notin> set (ass ! i)" using ilt Suc.prems(3) by (auto simp: nodes_of_def)
    then show "h' b = h b" using r(5) r1(5) b by simp
  qed
  then show ?case using step r r1(4) by auto
qed

section \<open>Reallocate, Grow and CheckGrowth keep the invariant and the nodes\<close>

lemma node_data_Some:
  "node_data h a = Some (k, v) \<longleftrightarrow> (\<exists>n. h a = Some n \<and> m_key n = k \<and> m_val n = v)"
  by (auto simp: node_data_def)

lemma node_data_key:
  assumes "node_data h' = node_data h" and "h a = Some n"
  shows "\<exists>n'. h' a = Some n' \<and> m_key n' = m_key n \<and> m_val n' = m_val n"
proof -
  have "node_data h a = Some (m_key n, m_val n)" using assms(2) by (simp add: node_data_def)
  then have "node_data h' a = Some (m_key n, m_val n)" using assms(1) by simp
  then show ?thesis by (simp add: node_data_Some)
qed

lemma matches_cong:
  assumes "node_data h' = node_data h"
  shows "matches eq h' k a = matches eq h k a"
proof (cases "h a")
  case None
  then have "node_data h' a = None" using assms by (simp add: node_data_def)
  then have "h' a = None" by (simp add: node_data_def)
  then show ?thesis using None by (simp add: matches_def)
next
  case (Some n)
  from node_data_key [OF assms Some] obtain n' where "h' a = Some n'" "m_key n' = m_key n"
    by blast
  then show ?thesis using Some by (simp add: matches_def)
qed

lemma no_duplicates_cong:
  assumes "table_nodes s' = table_nodes s" and "node_data (heap s') = node_data (heap s)"
    and "no_duplicates E s"
  shows "no_duplicates E s'"
  unfolding no_duplicates_def
proof (intro ballI allI impI)
  fix a b n n'
  assume a: "a \<in> table_nodes s'" and b: "b \<in> table_nodes s'" and ne: "a \<noteq> b"
    and n: "heap s' a = Some n" and n': "heap s' b = Some n'"
  from node_data_key [OF assms(2) [symmetric] n] obtain m where
    m: "heap s a = Some m" "m_key m = m_key n" by blast
  from node_data_key [OF assms(2) [symmetric] n'] obtain m' where
    m': "heap s b = Some m'" "m_key m' = m_key n'" by blast
  have "\<not> Equals E (m_key m) (m_key m')"
    using assms(1,3) a b ne m(1) m'(1) unfolding no_duplicates_def by blast
  then show "\<not> Equals E (m_key n) (m_key n')" using m(2) m'(2) by simp
qed

lemma table_invI:
  assumes "buckets_ok E s bs ass" and "no_duplicates E s"
    and "m_tableCount s = of_nat (card (table_nodes s))"
  shows "table_inv E s"
proof -
  have t: "m_table s = Some bs" using assms(1) by (simp add: buckets_ok_def)
  have "\<exists>as. chain (heap s) (bs ! i) as \<and>
             (\<forall>a\<in>set as. \<forall>n. heap s a = Some n \<longrightarrow>
                unat (magicNumberRem (GetHashCode E (m_key n)) (m_tableSizeInfo s)) = i)"
    if "i < length bs" for i
    using assms(1) that by (intro exI [of _ "ass ! i"]) (simp add: buckets_ok_def chains_ok_def)
  then show ?thesis
    using assms t by (simp add: table_inv_def buckets_ok_def chains_ok_def)
qed

lemma table_inv_no_duplicates:
  assumes "table_inv E s"
  shows "no_duplicates E s"
proof (cases "m_table s")
  case None
  then have "table_nodes s = {}" by (simp add: table_nodes_def)
  then show ?thesis by (simp add: no_duplicates_def)
next
  case (Some bs)
  then show ?thesis using assms by (simp add: table_inv_def)
qed

lemma table_inv_count:
  assumes "table_inv E s"
  shows "m_tableCount s = of_nat (card (table_nodes s))"
proof (cases "m_table s")
  case None
  then have "table_nodes s = {}" by (simp add: table_nodes_def)
  then show ?thesis using assms None by (simp add: table_inv_def)
next
  case (Some bs)
  then show ?thesis using assms by (simp add: table_inv_def)
qed

lemma chains_ok_empty:
  assumes "magic_valid np"
  shows "chains_ok E np h (replicate (unat (prime np)) None) (replicate (unat (prime np)) [])"
  using assms by (simp add: chains_ok_def)

lemma nodes_of_replicate: "nodes_of (replicate n []) = {}"
  by (simp add: nodes_of_def)

text \<open>The two loops of \<^verbatim>\<open>Reallocate\<close> on a table that satisfies the invariant.\<close>

lemma move_all_ok:
  assumes inv: "table_inv E s" and v: "magic_valid np"
  shows "\<exists>h' nt' nss'.
           move_buckets E np (m_table s) (unat (prime (m_tableSizeInfo s))) 0 (heap s)
             (replicate (unat (prime np)) None) = Some (Inr (h', nt'))
           \<and> chains_ok E np h' nt' nss'
           \<and> nodes_of nss' = table_nodes s
           \<and> node_data h' = node_data (heap s)
           \<and> (\<forall>b. b \<notin> table_nodes s \<longrightarrow> h' b = heap s b)"
proof (cases "m_table s")
  case None
  then have p0: "unat (prime (m_tableSizeInfo s)) = 0" and n0: "table_nodes s = {}"
    using inv by (simp_all add: table_inv_def table_nodes_def)
  have "move_buckets E np (m_table s) (unat (prime (m_tableSizeInfo s))) 0 (heap s)
             (replicate (unat (prime np)) None)
        = Some (Inr (heap s, replicate (unat (prime np)) None))"
    unfolding p0 by (subst move_buckets.simps) simp
  then show ?thesis
    using chains_ok_empty [OF v, of E "heap s"] n0 nodes_of_replicate by blast
next
  case (Some bs)
  from table_inv_buckets [OF inv Some] obtain ass where ok: "buckets_ok E s bs ass" ..
  have len: "length bs = unat (prime (m_tableSizeInfo s))" "length ass = unat (prime (m_tableSizeInfo s))"
    using ok by (simp_all add: buckets_ok_def chains_ok_def)
  have chs: "\<forall>j. 0 \<le> j \<and> j < unat (prime (m_tableSizeInfo s)) \<longrightarrow> chain (heap s) (bs ! j) (ass ! j)"
    using ok by (simp add: buckets_ok_def chains_ok_def)
  have disj: "\<forall>j<unat (prime (m_tableSizeInfo s)). \<forall>j'<unat (prime (m_tableSizeInfo s)).
      j \<noteq> j' \<longrightarrow> set (ass ! j) \<inter> set (ass ! j') = {}"
    using buckets_ok_disjoint [OF ok] len by (auto simp: disjoint_iff)
  have start: "nodes_of (replicate (unat (prime np)) []) = (\<Union>j<0. set (ass ! j))"
    by (simp add: nodes_of_replicate)
  from move_buckets_ok [OF chains_ok_empty [OF v, of E "heap s"] len(1) len(2) _ chs disj start]
  obtain h' nt' nss' where
    "move_buckets E np (Some bs) (unat (prime (m_tableSizeInfo s))) 0 (heap s)
        (replicate (unat (prime np)) None) = Some (Inr (h', nt'))"
    "chains_ok E np h' nt' nss'" "nodes_of nss' = nodes_of ass"
    "node_data h' = node_data (heap s)" "\<forall>b. b \<notin> nodes_of ass \<longrightarrow> h' b = heap s b"
    by auto
  then show ?thesis
    using Some buckets_ok_nodes [OF ok] by auto
qed

lemma Reallocate_ok:
  assumes pk: "\<forall>p\<in>set (primeInfo E). magic_valid p"
    and dd: "s_density_factor_denominator E \<noteq> 0"
    and inv: "table_inv E s"
  shows "Reallocate E sz s = Some (Inl (NoMemory, s)) \<or>
         (\<exists>s'. Reallocate E sz s = Some (Inr ((), s')) \<and> table_inv E s' \<and> m_table s' \<noteq> None
              \<and> table_nodes s' = table_nodes s \<and> node_data (heap s') = node_data (heap s)
              \<and> (\<forall>b. b \<notin> table_nodes s \<longrightarrow> heap s' b = heap s b)
              \<and> m_tableCount s' = m_tableCount s
              \<and> NextPrime E sz = Inr (m_tableSizeInfo s')
              \<and> m_tableMax s' = prime (m_tableSizeInfo s') * s_density_factor_numerator E
                                   div s_density_factor_denominator E)"
proof (cases "NextPrime E sz")
  case (Inl e)
  then have "e = NoMemory" by (simp add: NextPrime_Inl)
  then show ?thesis using Inl by (simp add: Reallocate_def)
next
  case (Inr np)
  then have "np \<in> set (primeInfo E)" by (auto simp: NextPrime_Inr)
  then have v: "magic_valid np" using pk by blast
  show ?thesis
  proof (cases "ArrayAlloc E s (prime np)")
    case False
    then show ?thesis using Inr by (simp add: Reallocate_def)
  next
    case True
    from move_all_ok [OF inv v] obtain h' nt' nss' where
      m: "move_buckets E np (m_table s) (unat (prime (m_tableSizeInfo s))) 0 (heap s)
             (replicate (unat (prime np)) None) = Some (Inr (h', nt'))"
      and ok: "chains_ok E np h' nt' nss'"
      and nodes: "nodes_of nss' = table_nodes s"
      and nd: "node_data h' = node_data (heap s)"
      and fr: "\<forall>b. b \<notin> table_nodes s \<longrightarrow> h' b = heap s b"
      by blast
    define s' where "s' = s\<lparr>heap := h', m_table := Some nt', m_tableSizeInfo := np,
      m_tableMax := prime np * s_density_factor_numerator E div s_density_factor_denominator E\<rparr>"
    have r: "Reallocate E sz s = Some (Inr ((), s'))"
      using Inr True m dd by (simp add: Reallocate_def Let_def s'_def)
    have bok: "buckets_ok E s' nt' nss'" using ok by (simp add: buckets_ok_def s'_def)
    have tn: "table_nodes s' = table_nodes s"
      using buckets_ok_nodes [OF bok] nodes by simp
    have nd': "node_data (heap s') = node_data (heap s)" using nd by (simp add: s'_def)
    have dup: "no_duplicates E s'"
      using no_duplicates_cong [OF tn nd' table_inv_no_duplicates [OF inv]] .
    have cnt: "m_tableCount s' = of_nat (card (table_nodes s'))"
      using table_inv_count [OF inv] tn by (simp add: s'_def)
    have "table_inv E s'" using table_invI [OF bok dup cnt] .
    then show ?thesis
      using r tn nd' fr Inr by (auto simp: s'_def)
  qed
qed

lemma Grow_ok:
  assumes pk: "\<forall>p\<in>set (primeInfo E). magic_valid p" and b: "Behavior_ok E"
    and inv: "table_inv E s"
  shows "Grow E s = Some (Inl (NoMemory, s)) \<or>
         (\<exists>s'. Grow E s = Some (Inr ((), s')) \<and> table_inv E s' \<and> m_table s' \<noteq> None
              \<and> table_nodes s' = table_nodes s \<and> node_data (heap s') = node_data (heap s)
              \<and> (\<forall>b. b \<notin> table_nodes s \<longrightarrow> heap s' b = heap s b)
              \<and> m_tableCount s' = m_tableCount s)"
proof -
  have dd: "s_density_factor_denominator E \<noteq> 0"
    using b by (auto simp: Behavior_ok_def)
  have nz: "s_growth_factor_denominator E \<noteq> 0" "s_density_factor_numerator E \<noteq> 0"
    using b by (simp_all add: Behavior_ok_def)
  define newSize where "newSize =
     (let raw = m_tableCount s * s_growth_factor_numerator E div s_growth_factor_denominator E
                  * s_density_factor_denominator E div s_density_factor_numerator E
      in if raw < s_minimum_allocation E then s_minimum_allocation E else raw)"
  have g: "Grow E s = (if newSize < m_tableCount s then Some (Inl (NoMemory, s))
                       else Reallocate E newSize s)"
    using nz by (simp add: Grow_def Let_def newSize_def)
  show ?thesis
  proof (cases "newSize < m_tableCount s")
    case True
    then show ?thesis using g by simp
  next
    case False
    then have "Grow E s = Reallocate E newSize s" using g by simp
    then show ?thesis using Reallocate_ok [OF pk dd inv, of newSize] by auto
  qed
qed

lemma CheckGrowth_ok:
  assumes pk: "\<forall>p\<in>set (primeInfo E). magic_valid p" and b: "Behavior_ok E"
    and inv: "table_inv E s"
  shows "CheckGrowth E s = Some (Inl (NoMemory, s)) \<or>
         (\<exists>s'. CheckGrowth E s = Some (Inr ((), s')) \<and> table_inv E s' \<and> m_table s' \<noteq> None
              \<and> table_nodes s' = table_nodes s \<and> node_data (heap s') = node_data (heap s)
              \<and> (\<forall>b. b \<notin> table_nodes s \<longrightarrow> heap s' b = heap s b)
              \<and> m_tableCount s' = m_tableCount s)"
proof (cases "m_tableCount s = m_tableMax s")
  case True
  then show ?thesis using Grow_ok [OF pk b inv] by (simp add: CheckGrowth_def)
next
  case False
  then have "m_table s \<noteq> None" using inv by (auto simp: table_inv_def split: option.splits)
  then show ?thesis using False inv by (simp add: CheckGrowth_def)
qed

section \<open>Set\<close>

lemma no_duplicates_keys_cong:
  assumes "table_nodes s' = table_nodes s"
    and "\<forall>a. map_option m_key (heap s' a) = map_option m_key (heap s a)"
    and "no_duplicates E s"
  shows "no_duplicates E s'"
  unfolding no_duplicates_def
proof (intro ballI allI impI)
  fix a b n n'
  assume a: "a \<in> table_nodes s'" and b: "b \<in> table_nodes s'" and ne: "a \<noteq> b"
    and n: "heap s' a = Some n" and n': "heap s' b = Some n'"
  have "map_option m_key (heap s a) = Some (m_key n)" using assms(2) n by (metis option.simps(9))
  then obtain m where m: "heap s a = Some m" "m_key m = m_key n" by auto
  have "map_option m_key (heap s b) = Some (m_key n')" using assms(2) n' by (metis option.simps(9))
  then obtain m' where m': "heap s b = Some m'" "m_key m' = m_key n'" by auto
  have "\<not> Equals E (m_key m) (m_key m')"
    using assms(1,3) a b ne m(1) m'(1) unfolding no_duplicates_def by blast
  then show "\<not> Equals E (m_key n) (m_key n')" using m(2) m'(2) by simp
qed

lemma chains_ok_val:
  assumes ok: "chains_ok E p h bs ass" and n: "h a = Some n"
  shows "chains_ok E p (h(a \<mapsto> n\<lparr>m_val := v\<rparr>)) bs ass"
proof -
  let ?h = "h(a \<mapsto> n\<lparr>m_val := v\<rparr>)"
  have nx: "map_option m_next (?h b) = map_option m_next (h b)" for b using n by simp
  have ky: "m_key m = m_key m'" if "?h b = Some m" "h b = Some m'" for b m m'
    using that n by (auto split: if_splits)
  have "chain ?h (bs ! i) (ass ! i)
      \<and> (\<forall>b\<in>set (ass ! i). \<forall>m. ?h b = Some m \<longrightarrow>
             unat (magicNumberRem (GetHashCode E (m_key m)) p) = i)"
    if i: "i < length bs" for i
  proof
    have c: "chain h (bs ! i) (ass ! i)" using ok i by (simp add: chains_ok_def)
    show "chain ?h (bs ! i) (ass ! i)" using c nx by (elim chain_frame) blast
    show "\<forall>b\<in>set (ass ! i). \<forall>m. ?h b = Some m \<longrightarrow>
             unat (magicNumberRem (GetHashCode E (m_key m)) p) = i"
    proof (intro ballI allI impI)
      fix b m assume b: "b \<in> set (ass ! i)" and m: "?h b = Some m"
      from chain_live [OF c b] obtain m' where m': "h b = Some m'" by blast
      have "unat (magicNumberRem (GetHashCode E (m_key m')) p) = i"
        using ok i b m' by (simp add: chains_ok_def)
      then show "unat (magicNumberRem (GetHashCode E (m_key m)) p) = i"
        using ky [OF m m'] by simp
    qed
  qed
  then show ?thesis using ok by (simp add: chains_ok_def)
qed

text \<open>Overwriting the value of a node of the table.\<close>

lemma inv_hit:
  assumes inv: "table_inv E s" and a: "a \<in> table_nodes s" and n: "heap s a = Some n"
  shows "table_inv E (s\<lparr>heap := (heap s)(a \<mapsto> n\<lparr>m_val := v\<rparr>)\<rparr>)"
    and "table_nodes (s\<lparr>heap := (heap s)(a \<mapsto> n\<lparr>m_val := v\<rparr>)\<rparr>) = table_nodes s"
proof -
  let ?s = "s\<lparr>heap := (heap s)(a \<mapsto> n\<lparr>m_val := v\<rparr>)\<rparr>"
  from a obtain bs where bs: "m_table s = Some bs" by (auto simp: table_nodes_def)
  from table_inv_buckets [OF inv bs] obtain ass where ok: "buckets_ok E s bs ass" ..
  have ok': "buckets_ok E ?s bs ass"
    using ok chains_ok_val [of E "m_tableSizeInfo s" "heap s" bs ass a n v] n
    by (simp add: buckets_ok_def)
  show tn: "table_nodes ?s = table_nodes s"
    using buckets_ok_nodes [OF ok] buckets_ok_nodes [OF ok'] by simp
  have keys: "\<forall>b. map_option m_key (heap ?s b) = map_option m_key (heap s b)"
    using n by simp
  have dup: "no_duplicates E ?s"
    using no_duplicates_keys_cong [OF tn keys table_inv_no_duplicates [OF inv]] .
  have cnt: "m_tableCount ?s = of_nat (card (table_nodes ?s))"
    using table_inv_count [OF inv] tn by simp
  show "table_inv E ?s" using table_invI [OF ok' dup cnt] .
qed

text \<open>Linking a new node for a key that matches no node of the table.\<close>

lemma inv_miss:
  assumes kf: "KeyFuncs_ok E" and inv: "table_inv E s" and bs: "m_table s = Some bs"
    and fresh: "heap s a = None"
    and miss: "\<forall>b\<in>table_nodes s. \<not> matches (Equals E) (heap s) k b"
    and i: "i = unat (GetIndexForKey E k s)"
  shows "table_inv E (s\<lparr>heap := (heap s)(a \<mapsto> \<lparr>m_key = k, m_val = v, m_next = bs ! i\<rparr>),
                         m_table := Some (bs[i := Some a]),
                         m_tableCount := m_tableCount s + 1\<rparr>)"
    and "table_nodes (s\<lparr>heap := (heap s)(a \<mapsto> \<lparr>m_key = k, m_val = v, m_next = bs ! i\<rparr>),
                         m_table := Some (bs[i := Some a]),
                         m_tableCount := m_tableCount s + 1\<rparr>) = insert a (table_nodes s)"
proof -
  let ?n = "\<lparr>m_key = k, m_val = v, m_next = bs ! i\<rparr>"
  let ?s = "s\<lparr>heap := (heap s)(a \<mapsto> ?n), m_table := Some (bs[i := Some a]),
              m_tableCount := m_tableCount s + 1\<rparr>"
  from table_inv_buckets [OF inv bs] obtain ass where ok: "buckets_ok E s bs ass" ..
  have notin: "a \<notin> table_nodes s" using buckets_ok_live [OF ok, of a] fresh by auto
  then have notin': "a \<notin> nodes_of ass" using buckets_ok_nodes [OF ok] by simp
  have ilt: "i < length ass"
    using buckets_ok_index [OF ok, of k] i ok by (simp add: buckets_ok_def chains_ok_def)
  have "chains_ok E (m_tableSizeInfo s) ((heap s)(a \<mapsto> ?n)) (bs[i := Some a]) (ass[i := a # ass ! i])"
    using ok notin' i by (intro chains_ok_push) (simp_all add: buckets_ok_def GetIndexForKey_def)
  then have ok': "buckets_ok E ?s (bs[i := Some a]) (ass[i := a # ass ! i])"
    by (simp add: buckets_ok_def)
  show tn: "table_nodes ?s = insert a (table_nodes s)"
    using buckets_ok_nodes [OF ok'] buckets_ok_nodes [OF ok] nodes_of_push [OF ilt] by simp
  have dup: "no_duplicates E ?s"
    unfolding no_duplicates_def
  proof (intro ballI allI impI)
    fix b c n n'
    assume b: "b \<in> table_nodes ?s" and c: "c \<in> table_nodes ?s" and ne: "b \<noteq> c"
      and n: "heap ?s b = Some n" and n': "heap ?s c = Some n'"
    have old: "\<not> Equals E k (m_key m)" if "d \<in> table_nodes s" "heap s d = Some m" for d m
      using miss that by (auto simp: matches_def)
    show "\<not> Equals E (m_key n) (m_key n')"
    proof (cases "b = a")
      case True
      then have "c \<in> table_nodes s" "heap s c = Some n'" "m_key n = k"
        using c ne n n' tn by auto
      then show ?thesis using old by simp
    next
      case False
      then have bo: "b \<in> table_nodes s" "heap s b = Some n" using b n tn by auto
      show ?thesis
      proof (cases "c = a")
        case True
        then have "m_key n' = k" using n' by auto
        moreover have "\<not> Equals E k (m_key n)" using old bo by simp
        ultimately show ?thesis using kf unfolding KeyFuncs_ok_def by blast
      next
        case False
        then have "c \<in> table_nodes s" "heap s c = Some n'" using c n' tn by auto
        then show ?thesis
          using table_inv_no_duplicates [OF inv] bo ne unfolding no_duplicates_def by blast
      qed
    qed
  qed
  have "card (table_nodes ?s) = Suc (card (table_nodes s))"
    using tn notin buckets_ok_finite [OF ok] by simp
  then have cnt: "m_tableCount ?s = of_nat (card (table_nodes ?s))"
    using table_inv_count [OF inv] by simp
  show "table_inv E ?s" using table_invI [OF ok' dup cnt] .
qed

text \<open>What \<^verbatim>\<open>Set\<close> does after the growth check, on a table with bucket array.\<close>

lemma Set_after_check:
  assumes cg: "CheckGrowth E s = Some (Inr (u, s1))"
    and kf: "KeyFuncs_ok E" and inv: "table_inv E s1" and bs: "m_table s1 = Some bs"
  shows "(\<exists>a n. a \<in> table_nodes s1 \<and> heap s1 a = Some n \<and> Equals E k (m_key n)
            \<and> Set E k v s = Some (Inr (True, s1\<lparr>heap := (heap s1)(a \<mapsto> n\<lparr>m_val := v\<rparr>)\<rparr>)))
       \<or> ((\<forall>b\<in>table_nodes s1. \<not> matches (Equals E) (heap s1) k b)
            \<and> unat (GetIndexForKey E k s1) < length bs
            \<and> Set E k v s =
                (case Alloc E s1 of
                   None \<Rightarrow> Some (Inl (NoMemory, s1))
                 | Some a \<Rightarrow> Some (Inr (False,
                     s1\<lparr>heap := (heap s1)(a \<mapsto>
                          \<lparr>m_key = k, m_val = v, m_next = bs ! unat (GetIndexForKey E k s1)\<rparr>),
                        m_table := Some (bs[unat (GetIndexForKey E k s1) := Some a]),
                        m_tableCount := m_tableCount s1 + 1\<rparr>))))"
proof -
  let ?i = "unat (GetIndexForKey E k s1)"
  from table_inv_buckets [OF inv bs] obtain ass where ok: "buckets_ok E s1 bs ass" ..
  have nd: "no_duplicates E s1" using table_inv_no_duplicates [OF inv] .
  have i: "?i < length bs" using buckets_ok_index [OF ok] .
  have ch: "chain (heap s1) (bs ! ?i) (ass ! ?i)" using ok i by (simp add: buckets_ok_def chains_ok_def)
  let ?r = "find (matches (Equals E) (heap s1) k) (ass ! ?i)"
  have cs: "chain_search (Equals E) (heap s1) k (bs ! ?i) = Some (Inr ?r)"
    using chain_search_chain [OF ch] .
  show ?thesis
  proof (cases ?r)
    case None
    have "\<forall>b\<in>table_nodes s1. \<not> matches (Equals E) (heap s1) k b"
      using bucket_find [OF ok kf nd, of k] None by auto
    moreover have "Set E k v s =
                (case Alloc E s1 of
                   None \<Rightarrow> Some (Inl (NoMemory, s1))
                 | Some a \<Rightarrow> Some (Inr (False,
                     s1\<lparr>heap := (heap s1)(a \<mapsto> \<lparr>m_key = k, m_val = v, m_next = bs ! ?i\<rparr>),
                        m_table := Some (bs[?i := Some a]),
                        m_tableCount := m_tableCount s1 + 1\<rparr>)))"
      using cg bs i cs None by (simp add: Set_def Let_def)
    ultimately show ?thesis using i by blast
  next
    case (Some a)
    then have a: "a \<in> table_nodes s1" "matches (Equals E) (heap s1) k a"
      using bucket_find [OF ok kf nd, of k a] by simp_all
    then obtain n where n: "heap s1 a = Some n" "Equals E k (m_key n)"
      by (auto simp: matches_def split: option.splits)
    have "Set E k v s = Some (Inr (True, s1\<lparr>heap := (heap s1)(a \<mapsto> n\<lparr>m_val := v\<rparr>)\<rparr>))"
      using cg bs i cs Some n(1) by (simp add: Set_def Let_def)
    then show ?thesis using a(1) n by blast
  qed
qed

lemma Lookup_present:
  assumes inv: "table_inv E s" and kf: "KeyFuncs_ok E"
    and a: "a \<in> table_nodes s" and n: "heap s a = Some n" and eq: "Equals E k (m_key n)"
  shows "Lookup E k pVal s mem =
     Some (Inr ((True, (case pVal of None \<Rightarrow> mem | Some p \<Rightarrow> mem(p \<mapsto> m_val n))), s))"
proof -
  from FindNode_spec [OF inv kf, of k] obtain r where
    r: "FindNode E k s = Some (Inr r)"
       "\<forall>b. r = Some b \<longleftrightarrow> b \<in> table_nodes s \<and> matches (Equals E) (heap s) k b"
    by blast
  have "matches (Equals E) (heap s) k a" using n eq by (simp add: matches_def)
  then have "r = Some a" using r(2) a by blast
  then show ?thesis using r(1) n by (simp add: Lookup_def split: option.splits)
qed

lemma Lookup_absent:
  assumes inv: "table_inv E s" and kf: "KeyFuncs_ok E"
    and miss: "\<forall>b\<in>table_nodes s. \<not> matches (Equals E) (heap s) k b"
  shows "Lookup E k pVal s mem = Some (Inr ((False, mem), s))"
proof -
  from FindNode_spec [OF inv kf, of k] obtain r where
    r: "FindNode E k s = Some (Inr r)"
       "\<forall>b. r = Some b \<longleftrightarrow> b \<in> table_nodes s \<and> matches (Equals E) (heap s) k b"
    by blast
  have "r = None" using r(2) miss by (cases r) auto
  then show ?thesis using r(1) by (simp add: Lookup_def)
qed

text \<open>The four ways \<^verbatim>\<open>Set\<close> can end on a table that satisfies the invariant.\<close>

lemma Set_cases:
  assumes pol: "policies_ok E" and inv: "table_inv E s"
  obtains
    (growth_failed) "CheckGrowth E s = Some (Inl (NoMemory, s))"
      "Set E k v s = Some (Inl (NoMemory, s))"
  | (hit) s1 a n where "CheckGrowth E s = Some (Inr ((), s1))" "table_inv E s1"
      "table_nodes s1 = table_nodes s" "node_data (heap s1) = node_data (heap s)"
      "a \<in> table_nodes s1" "heap s1 a = Some n" "Equals E k (m_key n)"
      "Set E k v s = Some (Inr (True, s1\<lparr>heap := (heap s1)(a \<mapsto> n\<lparr>m_val := v\<rparr>)\<rparr>))"
  | (alloc_failed) s1 bs where "CheckGrowth E s = Some (Inr ((), s1))" "table_inv E s1"
      "m_table s1 = Some bs" "unat (GetIndexForKey E k s1) < length bs"
      "\<forall>b\<in>table_nodes s1. \<not> matches (Equals E) (heap s1) k b"
      "Alloc E s1 = None" "Set E k v s = Some (Inl (NoMemory, s1))"
  | (miss) s1 bs a where "CheckGrowth E s = Some (Inr ((), s1))" "table_inv E s1"
      "table_nodes s1 = table_nodes s" "node_data (heap s1) = node_data (heap s)"
      "m_table s1 = Some bs" "unat (GetIndexForKey E k s1) < length bs"
      "\<forall>b\<in>table_nodes s1. \<not> matches (Equals E) (heap s1) k b"
      "Alloc E s1 = Some a" "heap s1 a = None"
      "Set E k v s = Some (Inr (False,
          s1\<lparr>heap := (heap s1)(a \<mapsto>
                  \<lparr>m_key = k, m_val = v, m_next = bs ! unat (GetIndexForKey E k s1)\<rparr>),
             m_table := Some (bs[unat (GetIndexForKey E k s1) := Some a]),
             m_tableCount := m_tableCount s1 + 1\<rparr>))"
proof -
  have pk: "\<forall>p\<in>set (primeInfo E). magic_valid p" and b: "Behavior_ok E" and kf: "KeyFuncs_ok E"
    and al: "\<forall>s a. Alloc E s = Some a \<longrightarrow> heap s a = None"
    using pol by (simp_all add: policies_ok_def)
  from CheckGrowth_ok [OF pk b inv] consider
    (f) "CheckGrowth E s = Some (Inl (NoMemory, s))"
    | (g) s1 where "CheckGrowth E s = Some (Inr ((), s1))" "table_inv E s1" "m_table s1 \<noteq> None"
        "table_nodes s1 = table_nodes s" "node_data (heap s1) = node_data (heap s)"
    by blast
  then show thesis
  proof cases
    case f
    then have "Set E k v s = Some (Inl (NoMemory, s))" by (simp add: Set_def)
    then show thesis using f growth_failed by blast
  next
    case g
    from g(3) obtain bs where bs: "m_table s1 = Some bs" by auto
    from Set_after_check [OF g(1) kf g(2) bs, of k v] consider
      (h) a n where "a \<in> table_nodes s1" "heap s1 a = Some n" "Equals E k (m_key n)"
            "Set E k v s = Some (Inr (True, s1\<lparr>heap := (heap s1)(a \<mapsto> n\<lparr>m_val := v\<rparr>)\<rparr>))"
      | (m) "\<forall>b\<in>table_nodes s1. \<not> matches (Equals E) (heap s1) k b"
            "unat (GetIndexForKey E k s1) < length bs"
            "Set E k v s =
                (case Alloc E s1 of
                   None \<Rightarrow> Some (Inl (NoMemory, s1))
                 | Some a \<Rightarrow> Some (Inr (False,
                     s1\<lparr>heap := (heap s1)(a \<mapsto>
                          \<lparr>m_key = k, m_val = v, m_next = bs ! unat (GetIndexForKey E k s1)\<rparr>),
                        m_table := Some (bs[unat (GetIndexForKey E k s1) := Some a]),
                        m_tableCount := m_tableCount s1 + 1\<rparr>)))"
      by blast
    then show thesis
    proof cases
      case h
      then show thesis using g hit by blast
    next
      case m
      show thesis
      proof (cases "Alloc E s1")
        case None
        then show thesis using m g bs alloc_failed by simp
      next
        case (Some a)
        then have "heap s1 a = None" using al by blast
        then show thesis using m g bs Some miss by simp
      qed
    qed
  qed
qed

lemma Set_inv:
  assumes pol: "policies_ok E" and inv: "table_inv E s" and r: "Set E k v s = Some (Inr (b, s'))"
  shows "table_inv E s'"
proof -
  have kf: "KeyFuncs_ok E" using pol by (simp add: policies_ok_def)
  show ?thesis
  proof (cases rule: Set_cases [OF pol inv, of k v, case_names growth_failed hit alloc_failed miss])
    case growth_failed
    then show ?thesis using r by simp
  next
    case (hit s1 a n)
    then show ?thesis using r inv_hit(1) [OF hit(2,5,6), of v] by simp
  next
    case (alloc_failed s1 bs)
    then show ?thesis using r by simp
  next
    case (miss s1 bs a)
    then show ?thesis using r inv_miss(1) [OF kf miss(2,5,9,7) refl, of v] by simp
  qed
qed


section \<open>The concrete instance satisfies the expectations\<close>

lemma E0_ok: "policies_ok E0"
proof -
  have "KeyFuncs_ok E0" by (simp add: KeyFuncs_ok_def E0_def)
  moreover have "Behavior_ok E0" by (simp add: Behavior_ok_def E0_def)
  moreover have "\<forall>p\<in>set (primeInfo E0). magic_valid p" by (simp add: E0_def magic_valid_def)
  moreover have "\<forall>s a. Alloc E0 s = Some a \<longrightarrow> heap s a = None"
    by (auto simp: E0_def find_Some_iff)
  ultimately show ?thesis by (simp add: policies_ok_def)
qed

lemma new_inv: "table_inv E (SimplerHashTable_new h)"
  by (simp add: table_inv_def SimplerHashTable_new_def)

lemma CheckGrowth_new_E0:
  "CheckGrowth E0 (SimplerHashTable_new Map.empty) =
     Some (Inr ((), \<lparr>heap = Map.empty, m_table = Some (replicate 9 None),
       m_tableSizeInfo = \<lparr>prime = 9, magic = 0x38e38e39, shift = 1\<rparr>,
       m_tableCount = 0, m_tableMax = 6\<rparr>))"
  using Grow_new_E0 by (simp add: CheckGrowth_def SimplerHashTable_new_def)

lemma Set_new_E0:
  "Set E0 5 10 (SimplerHashTable_new Map.empty) =
     Some (Inr (False,
       \<lparr>heap = [0 \<mapsto> \<lparr>m_key = 5, m_val = 10, m_next = None\<rparr>],
        m_table = Some ((replicate 9 None)[5 := Some 0]),
        m_tableSizeInfo = \<lparr>prime = 9, magic = 0x38e38e39, shift = 1\<rparr>,
        m_tableCount = 1, m_tableMax = 6\<rparr>))"
proof -
  have i: "GetIndexForKey E0 5 \<lparr>heap = Map.empty, m_table = Some (replicate 9 None),
       m_tableSizeInfo = \<lparr>prime = 9, magic = 0x38e38e39, shift = 1\<rparr>,
       m_tableCount = 0, m_tableMax = 6\<rparr> = 5"
    by (simp add: GetIndexForKey_def magicNumberRem_def magicNumberDivide_def E0_def)
  have a: "Alloc E0 \<lparr>heap = Map.empty, m_table = Some (replicate 9 None),
       m_tableSizeInfo = \<lparr>prime = 9, magic = 0x38e38e39, shift = 1\<rparr>,
       m_tableCount = 0, m_tableMax = 6\<rparr> = Some 0"
    by (simp add: E0_def)
  show ?thesis
    unfolding Set_def CheckGrowth_new_E0
    by (simp add: i a chain_search.simps)
qed



section \<open>Remove\<close>

text \<open>The search of \<^verbatim>\<open>Remove\<close> on a chain: it stops at the first node that matches, with
  \<^verbatim>\<open>ppN\<close> at the link that points to it.\<close>

lemma remove_search_miss:
  "chain h p as \<Longrightarrow> \<forall>a\<in>set as. \<not> matches eq h k a
     \<Longrightarrow> \<exists>l'. remove_search eq h k p l = Some (Inr (None, l'))"
proof (induction as arbitrary: p l)
  case Nil
  then show ?case by (subst remove_search.simps) simp
next
  case (Cons a as)
  from Cons.prems(1) obtain n where n: "p = Some a" "h a = Some n" "chain h (m_next n) as"
    by (auto split: option.splits)
  have "\<not> eq k (m_key n)" using Cons.prems(2) n(2) by (simp add: matches_def)
  then have "remove_search eq h k p l = remove_search eq h k (m_next n) (NextField a)"
    using n by (subst remove_search.simps) simp
  then show ?case using Cons.IH [OF n(3), of "NextField a"] Cons.prems(2) by simp
qed

lemma remove_search_hit:
  "chain h p (pre @ a # post) \<Longrightarrow> \<forall>b\<in>set pre. \<not> matches eq h k b \<Longrightarrow> matches eq h k a
     \<Longrightarrow> remove_search eq h k p l =
           Some (Inr (Some a, if pre = [] then l else NextField (last pre)))"
proof (induction pre arbitrary: p l)
  case Nil
  then obtain n where n: "p = Some a" "h a = Some n" by (auto split: option.splits)
  then have "eq k (m_key n)" using Nil.prems(3) by (simp add: matches_def)
  then show ?case using n by (subst remove_search.simps) simp
next
  case (Cons b pre)
  from Cons.prems(1) obtain n where n: "p = Some b" "h b = Some n"
    "chain h (m_next n) (pre @ a # post)"
    by (auto split: option.splits)
  have "\<not> eq k (m_key n)" using Cons.prems(2) n(2) by (simp add: matches_def)
  then have "remove_search eq h k p l = remove_search eq h k (m_next n) (NextField b)"
    using n by (subst remove_search.simps) simp
  then show ?case
    using Cons.IH [OF n(3) _ Cons.prems(3), of "NextField b"] Cons.prems(2) by simp
qed

text \<open>Unlinking a node of a chain that is not its head: the predecessor takes over the
  \<^verbatim>\<open>m_next\<close> of the node.\<close>

lemma chain_unlink:
  "chain h p (pre @ b # a # post) \<Longrightarrow> h b = Some nb \<Longrightarrow> h a = Some n
     \<Longrightarrow> chain (h(b \<mapsto> nb\<lparr>m_next := m_next n\<rparr>)) p (pre @ b # post)"
proof (induction pre arbitrary: p)
  case Nil
  let ?h = "h(b \<mapsto> nb\<lparr>m_next := m_next n\<rparr>)"
  from Nil.prems have p: "p = Some b" and c: "chain h (m_next nb) (a # post)" by simp_all
  then have c2: "chain h (m_next n) post" using Nil.prems(3) by simp
  have "distinct (b # a # post)" using Nil.prems(1) chain_distinct by fastforce
  then have "b \<notin> set post" by simp
  then have "chain ?h (m_next n) post" using c2 by (elim chain_same) auto
  then have "chain ?h (Some b) (b # post)" by (simp del: fun_upd_apply add: fun_upd_same)
  then show ?case using p by (simp del: fun_upd_apply chain.simps)
next
  case (Cons c pre)
  let ?h = "h(b \<mapsto> nb\<lparr>m_next := m_next n\<rparr>)"
  from Cons.prems(1) obtain nc where nc: "p = Some c" "h c = Some nc"
    "chain h (m_next nc) (pre @ b # a # post)"
    by (auto split: option.splits)
  have "distinct (c # pre @ b # a # post)" using Cons.prems(1) chain_distinct by fastforce
  then have "c \<noteq> b" by auto
  then have "?h c = Some nc" using nc(2) by simp
  then show ?case using nc(1) Cons.IH [OF nc(3) Cons.prems(2,3)] by simp
qed

lemma chain_split:
  "chain h p (pre @ a # post) \<Longrightarrow> h a = Some n \<Longrightarrow> chain h (m_next n) post"
  by (induction pre arbitrary: p) (auto split: option.splits)

lemma nodes_of_update:
  assumes "i < length ass" and "\<forall>j<length ass. j \<noteq> i \<longrightarrow> set (ass ! j) \<inter> X = {}"
    and "set xs = set (ass ! i) - X"
  shows "nodes_of (ass[i := xs]) = nodes_of ass - X"
  using assms by (auto simp: nodes_of_def nth_list_update split: if_splits) blast+

lemma chains_ok_disjoint:
  assumes "chains_ok E p h bs ass" and "i < length ass" and "j < length ass"
    and "a \<in> set (ass ! i)" and "a \<in> set (ass ! j)"
  shows "i = j"
proof -
  have "chain h (bs ! i) (ass ! i)" using assms by (simp add: chains_ok_def)
  then obtain n where n: "h a = Some n" using assms(4) chain_live by blast
  have "unat (magicNumberRem (GetHashCode E (m_key n)) p) = i"
    using assms(1,2,4) n by (auto simp: chains_ok_def)
  moreover have "unat (magicNumberRem (GetHashCode E (m_key n)) p) = j"
    using assms(1,3,5) n by (auto simp: chains_ok_def)
  ultimately show ?thesis by simp
qed

text \<open>Taking one node out of the chain of its bucket keeps the array well formed, whatever
  way the new heap and the new array realise the shortened chain.\<close>

lemma chains_ok_remove:
  assumes ok: "chains_ok E p h bs ass" and i: "i < length bs"
    and sp: "ass ! i = pre @ a # post"
    and ch: "chain h' (bs' ! i) (pre @ post)"
    and len: "length bs' = length bs"
    and same: "\<forall>j<length bs. j \<noteq> i \<longrightarrow> bs' ! j = bs ! j"
    and frame: "\<forall>c. c \<notin> set (ass ! i) \<longrightarrow> h' c = h c"
    and keys: "\<forall>c m. c \<noteq> a \<longrightarrow> h' c = Some m \<longrightarrow> (\<exists>m'. h c = Some m' \<and> m_key m' = m_key m)"
  shows "chains_ok E p h' bs' (ass[i := pre @ post])"
proof -
  have la: "length ass = length bs" using ok by (simp add: chains_ok_def)
  have "chain h' (bs' ! j) ((ass[i := pre @ post]) ! j)
      \<and> (\<forall>c\<in>set ((ass[i := pre @ post]) ! j). \<forall>m. h' c = Some m \<longrightarrow>
             unat (magicNumberRem (GetHashCode E (m_key m)) p) = j)"
    if j: "j < length bs" for j
  proof
    have old: "chain h (bs ! j) (ass ! j)" using ok j by (simp add: chains_ok_def)
    show "chain h' (bs' ! j) ((ass[i := pre @ post]) ! j)"
    proof (cases "j = i")
      case True
      then show ?thesis using ch i la by simp
    next
      case False
      have "\<forall>c\<in>set (ass ! j). c \<notin> set (ass ! i)"
        using chains_ok_disjoint [OF ok, of j i] j i la False by auto
      then have "chain h' (bs ! j) (ass ! j)" using old frame by (elim chain_same) auto
      then show ?thesis using False same j by simp
    qed
    show "\<forall>c\<in>set ((ass[i := pre @ post]) ! j). \<forall>m. h' c = Some m \<longrightarrow>
             unat (magicNumberRem (GetHashCode E (m_key m)) p) = j"
    proof (intro ballI allI impI)
      fix c m assume c: "c \<in> set ((ass[i := pre @ post]) ! j)" and m: "h' c = Some m"
      have "chain h (bs ! i) (ass ! i)" using ok i by (simp add: chains_ok_def)
      then have "distinct (ass ! i)" by (rule chain_distinct)
      then have ai: "a \<notin> set (pre @ post)" using sp by auto
      have cj: "c \<in> set (ass ! j) \<and> c \<noteq> a"
      proof (cases "j = i")
        case True
        then show ?thesis using c i la sp ai by auto
      next
        case False
        then have "c \<in> set (ass ! j)" using c by simp
        moreover have "a \<in> set (ass ! i)" using sp by simp
        ultimately show ?thesis using chains_ok_disjoint [OF ok, of j i c] j i la False by auto
      qed
      then obtain m' where m': "h c = Some m'" "m_key m' = m_key m" using keys m by blast
      have "unat (magicNumberRem (GetHashCode E (m_key m')) p) = j"
        using ok j cj m'(1) unfolding chains_ok_def by blast
      then show "unat (magicNumberRem (GetHashCode E (m_key m)) p) = j" using m'(2) by simp
    qed
  qed
  then show ?thesis using ok len la by (simp add: chains_ok_def)
qed

lemma Remove_uninit:
  assumes "m_table s = None"
  shows "Remove E k s = Some (Inl (AccessViolation, s))"
  using assms by (simp add: Remove_def)

lemma Remove_miss:
  assumes inv: "table_inv E s" and bs: "m_table s = Some bs"
    and miss: "\<forall>b\<in>table_nodes s. \<not> matches (Equals E) (heap s) k b"
  shows "Remove E k s = Some (Inr (False, s))"
proof -
  let ?i = "unat (GetIndexForKey E k s)"
  from table_inv_buckets [OF inv bs] obtain ass where ok: "buckets_ok E s bs ass" ..
  have i: "?i < length bs" using buckets_ok_index [OF ok] .
  have la: "length ass = length bs" using ok by (simp add: buckets_ok_def chains_ok_def)
  have ch: "chain (heap s) (bs ! ?i) (ass ! ?i)" using ok i by (simp add: buckets_ok_def chains_ok_def)
  have "\<forall>a\<in>set (ass ! ?i). \<not> matches (Equals E) (heap s) k a"
    using miss i la by (auto simp: buckets_ok_nodes [OF ok] nodes_of_def)
  from remove_search_miss [OF ch this, of "BucketSlot ?i"] obtain l' where
    "remove_search (Equals E) (heap s) k (bs ! ?i) (BucketSlot ?i) = Some (Inr (None, l'))"
    by blast
  then show ?thesis using bs i by (simp add: Remove_def Let_def)
qed

lemma Remove_hit:
  assumes kf: "KeyFuncs_ok E" and inv: "table_inv E s"
    and a: "a \<in> table_nodes s" and m: "matches (Equals E) (heap s) k a"
  shows "\<exists>s' bs bs' ass. Remove E k s = Some (Inr (True, s')) \<and> table_inv E s'
           \<and> buckets_ok E s bs ass \<and> a \<in> set (ass ! unat (GetIndexForKey E k s))
           \<and> buckets_ok E s' bs'
                (ass[unat (GetIndexForKey E k s) := remove1 a (ass ! unat (GetIndexForKey E k s))])
           \<and> table_nodes s' = table_nodes s - {a}
           \<and> heap s' a = None
           \<and> (\<forall>c. c \<noteq> a \<longrightarrow> node_data (heap s') c = node_data (heap s) c)
           \<and> m_tableCount s' = m_tableCount s - 1
           \<and> m_tableSizeInfo s' = m_tableSizeInfo s \<and> m_tableMax s' = m_tableMax s"
proof -
  let ?i = "unat (GetIndexForKey E k s)"
  let ?h = "heap s"
  from a obtain bs where bs: "m_table s = Some bs" by (auto simp: table_nodes_def)
  from table_inv_buckets [OF inv bs] obtain ass where ok: "buckets_ok E s bs ass" ..
  have cok: "chains_ok E (m_tableSizeInfo s) ?h bs ass" using ok by (simp add: buckets_ok_def)
  have nd: "no_duplicates E s" using table_inv_no_duplicates [OF inv] .
  have i: "?i < length bs" using buckets_ok_index [OF ok] .
  have la: "length ass = length bs" using ok by (simp add: buckets_ok_def chains_ok_def)
  have ch: "chain ?h (bs ! ?i) (ass ! ?i)" using ok i by (simp add: buckets_ok_def chains_ok_def)
  have dist: "distinct (ass ! ?i)" using ch by (rule chain_distinct)
  from a obtain j where j: "j < length ass" "a \<in> set (ass ! j)"
    by (auto simp: buckets_ok_nodes [OF ok] nodes_of_def)
  have "j = ?i" using match_in_bucket [OF ok kf j m] .
  then have ai: "a \<in> set (ass ! ?i)" using j by simp
  then obtain pre post where sp: "ass ! ?i = pre @ a # post" by (auto simp: in_set_conv_decomp)
  have apre: "a \<notin> set pre" and apost: "a \<notin> set post" using dist sp by auto
  have rm: "remove1 a (ass ! ?i) = pre @ post" using sp apre by (simp add: remove1_append)
  have premiss: "\<forall>b\<in>set pre. \<not> matches (Equals E) ?h k b"
  proof
    fix b assume b: "b \<in> set pre"
    then have "b \<in> set (ass ! ?i)" using sp by simp
    moreover have "?i < length ass" using i la by simp
    ultimately have "b \<in> nodes_of ass" unfolding nodes_of_def by blast
    then have bt: "b \<in> table_nodes s" using buckets_ok_nodes [OF ok] by simp
    have "b \<noteq> a" using b apre by blast
    then show "\<not> matches (Equals E) ?h k b"
      using match_unique [OF kf nd a m bt] by blast
  qed
  from m obtain n where n: "?h a = Some n" "Equals E k (m_key n)"
    by (auto simp: matches_def split: option.splits)
  have rs: "remove_search (Equals E) ?h k (bs ! ?i) (BucketSlot ?i) =
      Some (Inr (Some a, if pre = [] then BucketSlot ?i else NextField (last pre)))"
    using remove_search_hit [OF ch [unfolded sp] premiss m] .
  have post: "chain ?h (m_next n) post" using chain_split [OF ch [unfolded sp] n(1)] .
  have others: "\<forall>j<length ass. j \<noteq> ?i \<longrightarrow> set (ass ! j) \<inter> {a} = {}"
    using chains_ok_disjoint [OF cok _ _ _ ai] i la by auto
  have nodes_new: "nodes_of (ass[?i := pre @ post]) = nodes_of ass - {a}"
    using i la others sp apre apost by (intro nodes_of_update) auto
  \<comment> \<open>the heap and the bucket array after the unlinking and the release of the node\<close>
  obtain h' bs' where
    r: "Remove E k s = Some (Inr (True, s\<lparr>heap := h', m_table := Some bs',
                                          m_tableCount := m_tableCount s - 1\<rparr>))"
    and ch': "chain h' (bs' ! ?i) (pre @ post)"
    and len': "length bs' = length bs"
    and same': "\<forall>j<length bs. j \<noteq> ?i \<longrightarrow> bs' ! j = bs ! j"
    and frame': "\<forall>c. c \<notin> set (ass ! ?i) \<longrightarrow> h' c = ?h c"
    and data': "\<forall>c. c \<noteq> a \<longrightarrow> node_data h' c = node_data ?h c"
    and free': "h' a = None"
  proof (cases "pre = []")
    case True
    let ?bs = "bs[?i := m_next n]"
    let ?h' = "?h(a := None)"
    have "Remove E k s = Some (Inr (True, s\<lparr>heap := ?h', m_table := Some ?bs,
                                          m_tableCount := m_tableCount s - 1\<rparr>))"
      using bs i rs n(1) True by (simp add: Remove_def Let_def store_link_def)
    moreover have "chain ?h' (?bs ! ?i) (pre @ post)"
      using post apost True i by (simp, elim chain_same) auto
    moreover have "\<forall>c. c \<notin> set (ass ! ?i) \<longrightarrow> ?h' c = ?h c" using ai by auto
    moreover have "\<forall>c. c \<noteq> a \<longrightarrow> node_data ?h' c = node_data ?h c"
      by (simp add: node_data_def)
    ultimately show ?thesis using that [where h' = ?h' and bs' = ?bs] by simp
  next
    case False
    then obtain pre' b where pre: "pre = pre' @ [b]" by (metis rev_exhaust)
    have "b \<in> set (ass ! ?i)" using sp pre by simp
    from chain_live [OF ch this] obtain nb where nb: "?h b = Some nb" by blast
    have ba: "b \<noteq> a" using apre pre by auto
    let ?h1 = "?h(b \<mapsto> nb\<lparr>m_next := m_next n\<rparr>)"
    let ?h' = "?h1(a := None)"
    have "store_link (NextField b) (m_next n) s = Inr (s\<lparr>heap := ?h1\<rparr>)"
      using nb by (simp add: store_link_def)
    then have "Remove E k s = Some (Inr (True, s\<lparr>heap := ?h', m_table := Some bs,
                                          m_tableCount := m_tableCount s - 1\<rparr>))"
      using bs i rs n(1) False pre by (simp add: Remove_def Let_def)
    moreover have "chain ?h' (bs ! ?i) (pre @ post)"
    proof -
      have "chain ?h (bs ! ?i) (pre' @ b # a # post)" using ch sp pre by simp
      from chain_unlink [OF this nb n(1)] have "chain ?h1 (bs ! ?i) (pre @ post)"
        using pre by simp
      then show ?thesis using apre apost by (elim chain_same) auto
    qed
    moreover have "\<forall>c. c \<notin> set (ass ! ?i) \<longrightarrow> ?h' c = ?h c"
      using ai \<open>b \<in> set (ass ! ?i)\<close> by auto
    moreover have "\<forall>c. c \<noteq> a \<longrightarrow> node_data ?h' c = node_data ?h c"
      using nb by (simp add: node_data_def)
    ultimately show ?thesis using that [where h' = ?h' and bs' = bs] by simp
  qed
  define s' where "s' = s\<lparr>heap := h', m_table := Some bs', m_tableCount := m_tableCount s - 1\<rparr>"
  have keys': "\<forall>c m. c \<noteq> a \<longrightarrow> h' c = Some m \<longrightarrow> (\<exists>m'. ?h c = Some m' \<and> m_key m' = m_key m)"
  proof (intro allI impI)
    fix c m assume c: "c \<noteq> a" and hm: "h' c = Some m"
    have "node_data h' c = Some (m_key m, m_val m)" using hm by (simp add: node_data_def)
    then have "node_data ?h c = Some (m_key m, m_val m)" using data' c by simp
    then show "\<exists>m'. ?h c = Some m' \<and> m_key m' = m_key m" by (auto simp: node_data_Some)
  qed
  have "chains_ok E (m_tableSizeInfo s) h' bs' (ass[?i := pre @ post])"
    using chains_ok_remove [OF cok i sp ch' len' same' frame' keys'] .
  then have ok': "buckets_ok E s' bs' (ass[?i := pre @ post])"
    by (simp add: buckets_ok_def s'_def)
  have tn: "table_nodes s' = table_nodes s - {a}"
    using buckets_ok_nodes [OF ok'] buckets_ok_nodes [OF ok] nodes_new by simp
  have dup: "no_duplicates E s'"
    unfolding no_duplicates_def
  proof (intro ballI allI impI)
    fix c d m m'
    assume c: "c \<in> table_nodes s'" and d: "d \<in> table_nodes s'" and ne: "c \<noteq> d"
      and hm: "heap s' c = Some m" and hm': "heap s' d = Some m'"
    have ca: "c \<noteq> a" "d \<noteq> a" using c d tn by auto
    have "h' c = Some m" "h' d = Some m'" using hm hm' by (simp_all add: s'_def)
    then obtain mc md where mc: "?h c = Some mc" "m_key mc = m_key m"
      and md: "?h d = Some md" "m_key md = m_key m'"
      using keys' ca by blast
    have "\<not> Equals E (m_key mc) (m_key md)"
      using nd c d tn ne mc(1) md(1) unfolding no_duplicates_def by blast
    then show "\<not> Equals E (m_key m) (m_key m')" using mc(2) md(2) by simp
  qed
  have fin: "finite (table_nodes s)" using buckets_ok_finite [OF ok] .
  have "card (table_nodes s) = Suc (card (table_nodes s'))"
    using card_Suc_Diff1 [OF fin a] tn by simp
  then have "m_tableCount s = of_nat (card (table_nodes s')) + 1"
    using table_inv_count [OF inv] by simp
  then have "m_tableCount s - 1 = of_nat (card (table_nodes s'))" by simp
  moreover have "m_tableCount s' = m_tableCount s - 1" by (simp add: s'_def)
  ultimately have cnt: "m_tableCount s' = of_nat (card (table_nodes s'))" by (simp only:)
  have inv': "table_inv E s'" using table_invI [OF ok' dup cnt] .
  show ?thesis
    using r inv' ok ai ok' tn free' data' rm
    unfolding s'_def [symmetric]
    by (intro exI [of _ s'] exI [of _ bs] exI [of _ bs'] exI [of _ ass]) (simp add: s'_def)
qed

section \<open>The count and the keys of a table\<close>

lemma Remove_inv:
  assumes kf: "KeyFuncs_ok E" and inv: "table_inv E s" and r: "Remove E k s = Some (Inr (b, s'))"
  shows "table_inv E s'"
proof (cases "m_table s")
  case None
  then show ?thesis using r Remove_uninit [OF None, of E k] by simp
next
  case (Some bs)
  show ?thesis
  proof (cases "\<exists>a\<in>table_nodes s. matches (Equals E) (heap s) k a")
    case True
    then obtain a where "a \<in> table_nodes s" "matches (Equals E) (heap s) k a" by blast
    from Remove_hit [OF kf inv this] show ?thesis using r by auto
  next
    case False
    then show ?thesis using Remove_miss [OF inv Some, of k] r inv by auto
  qed
qed

lemma run_ops_inv:
  assumes pol: "policies_ok E"
  shows "table_inv E s \<Longrightarrow> run_ops E ops s = Some (Inr (u, s')) \<Longrightarrow> table_inv E s'"
proof (induction ops arbitrary: s)
  case Nil
  then show ?case by simp
next
  case (Cons x ops)
  have kf: "KeyFuncs_ok E" using pol by (simp add: policies_ok_def)
  show ?case
  proof (cases x)
    case (DoSet k v)
    with Cons.prems(2) obtain b t where t: "Set E k v s = Some (Inr (b, t))"
      "run_ops E ops t = Some (Inr (u, s'))"
      by (auto split: option.splits sum.splits)
    show ?thesis using Cons.IH [OF Set_inv [OF pol Cons.prems(1) t(1)] t(2)] .
  next
    case (DoRemove k)
    with Cons.prems(2) obtain b t where t: "Remove E k s = Some (Inr (b, t))"
      "run_ops E ops t = Some (Inr (u, s'))"
      by (auto split: option.splits sum.splits)
    show ?thesis using Cons.IH [OF Remove_inv [OF kf Cons.prems(1) t(1)] t(2)] .
  qed
qed

lemma run_ops_prefix:
  "run_ops E ops s = Some (Inr (u, s')) \<Longrightarrow> \<exists>t. run_ops E (take n ops) s = Some (Inr ((), t))"
proof (induction ops arbitrary: s n)
  case Nil
  then show ?case by simp
next
  case (Cons x ops)
  show ?case
  proof (cases n)
    case 0
    then show ?thesis by simp
  next
    case (Suc m)
    show ?thesis
    proof (cases x)
      case (DoSet k v)
      with Cons.prems obtain b t where t: "Set E k v s = Some (Inr (b, t))"
        "run_ops E ops t = Some (Inr (u, s'))"
        by (auto split: option.splits sum.splits)
      from Cons.IH [OF t(2), of m] show ?thesis using Suc DoSet t(1) by simp
    next
      case (DoRemove k)
      with Cons.prems obtain b t where t: "Remove E k s = Some (Inr (b, t))"
        "run_ops E ops t = Some (Inr (u, s'))"
        by (auto split: option.splits sum.splits)
      from Cons.IH [OF t(2), of m] show ?thesis using Suc DoRemove t(1) by simp
    qed
  qed
qed

lemma table_nodes_live:
  assumes "table_inv E s" and "a \<in> table_nodes s"
  shows "\<exists>n. heap s a = Some n"
proof -
  from assms(2) obtain bs where bs: "m_table s = Some bs" by (auto simp: table_nodes_def)
  from table_inv_buckets [OF assms(1) bs] obtain ass where "buckets_ok E s bs ass" ..
  then show ?thesis using assms(2) by (rule buckets_ok_live)
qed

lemma table_nodes_finite:
  assumes "table_inv E s"
  shows "finite (table_nodes s)"
proof (cases "m_table s")
  case None
  then show ?thesis by (simp add: table_nodes_def)
next
  case (Some bs)
  from table_inv_buckets [OF assms Some] obtain ass where "buckets_ok E s bs ass" ..
  then show ?thesis by (rule buckets_ok_finite)
qed

text \<open>Different nodes hold different keys, so there are as many keys as nodes.\<close>

lemma card_table_keys:
  assumes inv: "table_inv E s" and kf: "KeyFuncs_ok E"
  shows "card (table_keys s) = card (table_nodes s)"
proof -
  define f where "f a = m_key (the (heap s a))" for a
  have img: "table_keys s = f ` table_nodes s"
  proof (intro set_eqI iffI)
    fix k assume "k \<in> table_keys s"
    then obtain a n where "a \<in> table_nodes s" "heap s a = Some n" "k = m_key n"
      by (auto simp: table_keys_def)
    then show "k \<in> f ` table_nodes s" by (auto simp: f_def intro!: image_eqI [of _ _ a])
  next
    fix k assume "k \<in> f ` table_nodes s"
    then obtain a where a: "a \<in> table_nodes s" "k = f a" by blast
    from table_nodes_live [OF inv a(1)] obtain n where "heap s a = Some n" by blast
    then show "k \<in> table_keys s" using a unfolding table_keys_def f_def by auto
  qed
  have "inj_on f (table_nodes s)"
  proof (rule inj_onI)
    fix a b assume a: "a \<in> table_nodes s" and b: "b \<in> table_nodes s" and eq: "f a = f b"
    from table_nodes_live [OF inv a] obtain n where n: "heap s a = Some n" by blast
    from table_nodes_live [OF inv b] obtain n' where n': "heap s b = Some n'" by blast
    have "Equals E (m_key n) (m_key n')"
      using eq n n' kf by (simp add: f_def KeyFuncs_ok_def)
    then show "a = b"
      using table_inv_no_duplicates [OF inv] a b n n' unfolding no_duplicates_def by blast
  qed
  then show ?thesis using img by (simp add: card_image)
qed

lemma inv_count_keys:
  assumes inv: "table_inv E s" and kf: "KeyFuncs_ok E"
  shows "m_tableCount s = of_nat (card (table_keys s))"
    and "card (table_keys s) < 2 ^ 32 \<Longrightarrow> unat (m_tableCount s) = card (table_keys s)"
proof -
  show c: "m_tableCount s = of_nat (card (table_keys s))"
    using table_inv_count [OF inv] card_table_keys [OF inv kf] by simp
  show "unat (m_tableCount s) = card (table_keys s)" if "card (table_keys s) < 2 ^ 32"
    using c that by (simp add: unat_of_nat)
qed

text \<open>\<^verbatim>\<open>Lookup\<close> reports a key present exactly when the table holds a key that \<^verbatim>\<open>Equals\<close>
  identifies with it.\<close>

lemma Lookup_table_keys:
  assumes inv: "table_inv E s" and kf: "KeyFuncs_ok E"
  shows "Lookup E k None s mem = Some (Inr ((\<exists>k'\<in>table_keys s. Equals E k k', mem), s))"
proof (cases "\<exists>a\<in>table_nodes s. matches (Equals E) (heap s) k a")
  case True
  then obtain a n where a: "a \<in> table_nodes s" "heap s a = Some n" "Equals E k (m_key n)"
    by (auto simp: matches_def split: option.splits)
  have "m_key n \<in> table_keys s" using a(1,2) unfolding table_keys_def by blast
  then have "\<exists>k'\<in>table_keys s. Equals E k k'" using a(3) by blast
  then show ?thesis using Lookup_present [OF inv kf a, of None mem] by simp
next
  case False
  then have m: "\<forall>b\<in>table_nodes s. \<not> matches (Equals E) (heap s) k b" by blast
  have "\<not> (\<exists>k'\<in>table_keys s. Equals E k k')"
  proof
    assume "\<exists>k'\<in>table_keys s. Equals E k k'"
    then obtain a n where "a \<in> table_nodes s" "heap s a = Some n" "Equals E k (m_key n)"
      unfolding table_keys_def by blast
    then have "matches (Equals E) (heap s) k a" by (simp add: matches_def)
    then show False using m \<open>a \<in> table_nodes s\<close> by blast
  qed
  then show ?thesis using Lookup_absent [OF inv kf m, of None mem] by simp
qed

text \<open>
  After every sequence of \<^verbatim>\<open>Set\<close> and \<^verbatim>\<open>Remove\<close> operations from the empty table that the
  caller could complete, the count field is the number of distinct keys in the table (as
  a 32-bit value, and exactly so while there are fewer than \<open>2 ^ 32\<close> keys), these keys are
  the ones \<^verbatim>\<open>Lookup\<close> reports present, there are as many nodes as keys, and no two different
  nodes hold keys that \<^verbatim>\<open>Equals\<close> identifies. The same holds after every prefix of the
  sequence, that is, at every point in between.
\<close>

theorem count_is_number_of_keys:
  assumes pol: "policies_ok E"
    and run: "run_ops E ops (SimplerHashTable_new h) = Some (Inr (u, s))"
  shows "m_tableCount s = of_nat (card (table_keys s))
       \<and> (card (table_keys s) < 2 ^ 32 \<longrightarrow> unat (m_tableCount s) = card (table_keys s))
       \<and> Lookup E k None s mem = Some (Inr ((\<exists>k'\<in>table_keys s. Equals E k k', mem), s))
       \<and> card (table_nodes s) = card (table_keys s)
       \<and> no_duplicates E s
       \<and> (\<forall>n. \<exists>t. run_ops E (take n ops) (SimplerHashTable_new h) = Some (Inr ((), t))
               \<and> m_tableCount t = of_nat (card (table_keys t))
               \<and> card (table_nodes t) = card (table_keys t)
               \<and> no_duplicates E t)"
proof -
  have kf: "KeyFuncs_ok E" using pol by (simp add: policies_ok_def)
  have inv: "table_inv E s" using run_ops_inv [OF pol new_inv run] .
  have pre: "\<exists>t. run_ops E (take n ops) (SimplerHashTable_new h) = Some (Inr ((), t))
               \<and> m_tableCount t = of_nat (card (table_keys t))
               \<and> card (table_nodes t) = card (table_keys t)
               \<and> no_duplicates E t" for n
  proof -
    from run_ops_prefix [OF run, of n] obtain t where
      t: "run_ops E (take n ops) (SimplerHashTable_new h) = Some (Inr ((), t))" by blast
    have "table_inv E t" using run_ops_inv [OF pol new_inv t] .
    then show ?thesis
      using t inv_count_keys(1) [OF _ kf, of t] card_table_keys [OF _ kf, of t]
        table_inv_no_duplicates [of E t] by auto
  qed
  show ?thesis
    using inv_count_keys [OF inv kf] card_table_keys [OF inv kf] table_inv_no_duplicates [OF inv]
      Lookup_table_keys [OF inv kf, of k mem] pre
    by auto
qed

lemma Set_second_E0:
  "Set E0 14 20
       \<lparr>heap = [0 \<mapsto> \<lparr>m_key = 5, m_val = 10, m_next = None\<rparr>],
        m_table = Some ((replicate 9 None)[5 := Some 0]),
        m_tableSizeInfo = \<lparr>prime = 9, magic = 0x38e38e39, shift = 1\<rparr>,
        m_tableCount = 1, m_tableMax = 6\<rparr> =
     Some (Inr (False,
       \<lparr>heap = [0 \<mapsto> \<lparr>m_key = 5, m_val = 10, m_next = None\<rparr>,
                1 \<mapsto> \<lparr>m_key = 14, m_val = 20, m_next = Some 0\<rparr>],
        m_table = Some ((replicate 9 None)[5 := Some 1]),
        m_tableSizeInfo = \<lparr>prime = 9, magic = 0x38e38e39, shift = 1\<rparr>,
        m_tableCount = 2, m_tableMax = 6\<rparr>))"
  by (simp add: Set_def CheckGrowth_def GetIndexForKey_def magicNumberRem_def
      magicNumberDivide_def E0_def chain_search.simps)

lemma Remove_third_E0:
  "Remove E0 5
       \<lparr>heap = [0 \<mapsto> \<lparr>m_key = 5, m_val = 10, m_next = None\<rparr>,
                1 \<mapsto> \<lparr>m_key = 14, m_val = 20, m_next = Some 0\<rparr>],
        m_table = Some ((replicate 9 None)[5 := Some 1]),
        m_tableSizeInfo = \<lparr>prime = 9, magic = 0x38e38e39, shift = 1\<rparr>,
        m_tableCount = 2, m_tableMax = 6\<rparr> =
     Some (Inr (True,
       \<lparr>heap = [1 \<mapsto> \<lparr>m_key = 14, m_val = 20, m_next = None\<rparr>],
        m_table = Some ((replicate 9 None)[5 := Some 1]),
        m_tableSizeInfo = \<lparr>prime = 9, magic = 0x38e38e39, shift = 1\<rparr>,
        m_tableCount = 1, m_tableMax = 6\<rparr>))"
  by (simp add: Remove_def GetIndexForKey_def magicNumberRem_def
      magicNumberDivide_def E0_def remove_search.simps store_link_def)

lemma run_E0:
  "run_ops E0 [DoSet 5 10, DoSet 14 20, DoRemove 5] (SimplerHashTable_new Map.empty) =
     Some (Inr ((),
       \<lparr>heap = [1 \<mapsto> \<lparr>m_key = 14, m_val = 20, m_next = None\<rparr>],
        m_table = Some ((replicate 9 None)[5 := Some 1]),
        m_tableSizeInfo = \<lparr>prime = 9, magic = 0x38e38e39, shift = 1\<rparr>,
        m_tableCount = 1, m_tableMax = 6\<rparr>))"
  by (simp only: run_ops.simps Set_new_E0 Set_second_E0 Remove_third_E0
      option.case sum.case prod.case)

theorem count_is_number_of_keys_witness:
  "policies_ok E0
   \<and> run_ops E0 [DoSet 5 10, DoSet 14 20, DoRemove 5] (SimplerHashTable_new Map.empty) =
     Some (Inr ((),
       \<lparr>heap = [1 \<mapsto> \<lparr>m_key = 14, m_val = 20, m_next = None\<rparr>],
        m_table = Some ((replicate 9 None)[5 := Some 1]),
        m_tableSizeInfo = \<lparr>prime = 9, magic = 0x38e38e39, shift = 1\<rparr>,
        m_tableCount = 1, m_tableMax = 6\<rparr>))
   \<and> (1 :: u32) = of_nat (card (table_keys
       \<lparr>heap = [1 \<mapsto> \<lparr>m_key = 14 :: nat, m_val = 20 :: nat, m_next = None\<rparr>],
        m_table = Some ((replicate 9 None)[5 := Some 1]),
        m_tableSizeInfo = \<lparr>prime = 9, magic = 0x38e38e39, shift = 1\<rparr>,
        m_tableCount = 1, m_tableMax = 6\<rparr>))
   \<and> no_duplicates E0
       \<lparr>heap = [1 \<mapsto> \<lparr>m_key = 14, m_val = 20, m_next = None\<rparr>],
        m_table = Some ((replicate 9 None)[5 := Some 1]),
        m_tableSizeInfo = \<lparr>prime = 9, magic = 0x38e38e39, shift = 1\<rparr>,
        m_tableCount = 1, m_tableMax = 6\<rparr>"
proof -
  note r = count_is_number_of_keys [OF E0_ok run_E0]
  from r have "(1 :: u32) = of_nat (card (table_keys
       \<lparr>heap = [1 \<mapsto> \<lparr>m_key = 14 :: nat, m_val = 20 :: nat, m_next = None\<rparr>],
        m_table = Some ((replicate 9 None)[5 := Some 1]),
        m_tableSizeInfo = \<lparr>prime = 9, magic = 0x38e38e39, shift = 1\<rparr>,
        m_tableCount = 1, m_tableMax = 6\<rparr>))"
    by simp
  moreover from r have "no_duplicates E0
       \<lparr>heap = [1 \<mapsto> \<lparr>m_key = 14, m_val = 20, m_next = None\<rparr>],
        m_table = Some ((replicate 9 None)[5 := Some 1]),
        m_tableSizeInfo = \<lparr>prime = 9, magic = 0x38e38e39, shift = 1\<rparr>,
        m_tableCount = 1, m_tableMax = 6\<rparr>"
    by blast
  ultimately show ?thesis using E0_ok run_E0 by blast
qed

section \<open>Sequences that start with Remove\<close>

text \<open>Every sequence whose first operation is a \<^verbatim>\<open>Set\<close> ends, in \<^verbatim>\<open>NoMemory()\<close> or in a
  table that satisfies the invariant: once the first \<^verbatim>\<open>Set\<close> has returned there is a bucket
  array, and \<^verbatim>\<open>Remove\<close> returns on every such table.\<close>

lemma Set_total:
  assumes pol: "policies_ok E" and inv: "table_inv E s"
  shows "\<exists>r. Set E k v s = Some r \<and>
           (case r of Inl (e, t) \<Rightarrow> e = NoMemory
            | Inr (b, s') \<Rightarrow> table_inv E s' \<and> m_table s' \<noteq> None)"
proof (cases rule: Set_cases [OF pol inv, of k v, case_names growth_failed hit alloc_failed miss])
  case growth_failed
  then show ?thesis by simp
next
  case (hit s1 a n)
  from hit(5) obtain bs where "m_table s1 = Some bs" by (auto simp: table_nodes_def)
  then show ?thesis using hit(8) inv_hit(1) [OF hit(2,5,6), of v] by simp
next
  case (alloc_failed s1 bs)
  then show ?thesis by simp
next
  case (miss s1 bs a)
  have kf: "KeyFuncs_ok E" using pol by (simp add: policies_ok_def)
  show ?thesis using miss(10) inv_miss(1) [OF kf miss(2,5,9,7) refl, of v] by simp
qed

lemma Remove_total:
  assumes kf: "KeyFuncs_ok E" and inv: "table_inv E s" and bs: "m_table s \<noteq> None"
  shows "\<exists>b s'. Remove E k s = Some (Inr (b, s')) \<and> table_inv E s' \<and> m_table s' \<noteq> None"
proof (cases "\<exists>a\<in>table_nodes s. matches (Equals E) (heap s) k a")
  case True
  then obtain a where "a \<in> table_nodes s" "matches (Equals E) (heap s) k a" by blast
  from Remove_hit [OF kf inv this] obtain s' bs' ass' where
    "Remove E k s = Some (Inr (True, s'))" "table_inv E s'" "buckets_ok E s' bs' ass'"
    by blast
  then show ?thesis by (auto simp: buckets_ok_def)
next
  case False
  from bs obtain b where "m_table s = Some b" by auto
  from Remove_miss [OF inv this, of k] False show ?thesis using inv bs by auto
qed

lemma run_ops_total:
  assumes pol: "policies_ok E"
  shows "table_inv E s \<Longrightarrow> m_table s \<noteq> None \<Longrightarrow>
     \<exists>r. run_ops E ops s = Some r \<and>
        (case r of Inl (e, t) \<Rightarrow> e = NoMemory | Inr (u, s') \<Rightarrow> table_inv E s')"
proof (induction ops arbitrary: s)
  case Nil
  then show ?case by simp
next
  case (Cons x ops)
  have kf: "KeyFuncs_ok E" using pol by (simp add: policies_ok_def)
  show ?case
  proof (cases x)
    case (DoSet k v)
    from Set_total [OF pol Cons.prems(1), of k v] obtain r where
      r: "Set E k v s = Some r"
         "case r of Inl (e, t) \<Rightarrow> e = NoMemory
            | Inr (b, s') \<Rightarrow> table_inv E s' \<and> m_table s' \<noteq> None"
      by blast
    show ?thesis
    proof (cases r)
      case (Inl et)
      then show ?thesis using r DoSet by (cases et) simp
    next
      case (Inr bs')
      obtain b s' where bs': "bs' = (b, s')" by (cases bs')
      then have "table_inv E s'" "m_table s' \<noteq> None" using r(2) Inr by simp_all
      from Cons.IH [OF this] show ?thesis using r(1) Inr bs' DoSet by simp
    qed
  next
    case (DoRemove k)
    from Remove_total [OF kf Cons.prems, of k] obtain b s' where
      r: "Remove E k s = Some (Inr (b, s'))" "table_inv E s'" "m_table s' \<noteq> None"
      by blast
    from Cons.IH [OF r(2,3)] show ?thesis using r(1) DoRemove by simp
  qed
qed
lemma run_ops_Set_first:
  assumes pol: "policies_ok E"
  shows "\<exists>r. run_ops E (DoSet k v # ops) (SimplerHashTable_new h) = Some r \<and>
        (case r of Inl (e, t) \<Rightarrow> e = NoMemory | Inr (u, s') \<Rightarrow> table_inv E s')"
proof -
  from Set_total [OF pol new_inv, of k v h] obtain r where
    r: "Set E k v (SimplerHashTable_new h) = Some r"
       "case r of Inl (e, t) \<Rightarrow> e = NoMemory
          | Inr (b, s') \<Rightarrow> table_inv E s' \<and> m_table s' \<noteq> None"
    by blast
  show ?thesis
  proof (cases r)
    case (Inl et)
    then show ?thesis using r by (cases et) simp
  next
    case (Inr bs')
    obtain b s' where bs': "bs' = (b, s')" by (cases bs')
    then have "table_inv E s'" "m_table s' \<noteq> None" using r(2) Inr by simp_all
    from run_ops_total [OF pol this, of ops] show ?thesis using r(1) Inr bs' by simp
  qed
qed

text \<open>
  C2. A sequence of \<^verbatim>\<open>Set\<close> and \<^verbatim>\<open>Remove\<close> operations from the empty table whose first
  operation is a \<^verbatim>\<open>Remove\<close> does not reach a table whose count is the number of its keys:
  the empty table has count 0 and no keys, but it has no bucket array either, and the
  first \<^verbatim>\<open>Remove\<close>, which has no test for \<open>prime = 0\<close>, reads \<^verbatim>\<open>m_table[index]\<close> through the
  null pointer. The sequence stops there, whatever follows.
\<close>

theorem Remove_first_sequence_faults:
  "run_ops E (DoRemove k # ops) (SimplerHashTable_new h)
     = Some (Inl (AccessViolation, SimplerHashTable_new h))
   \<and> run_ops E [] (SimplerHashTable_new h) = Some (Inr ((), SimplerHashTable_new h))
   \<and> m_tableCount (SimplerHashTable_new h) = 0
   \<and> table_keys (SimplerHashTable_new h) = {}"
  by (simp add: Remove_def SimplerHashTable_new_def table_keys_def table_nodes_def)

section \<open>Growth keeps the contents\<close>

lemma FindNode_cong:
  assumes kf: "KeyFuncs_ok E" and inv: "table_inv E s" and inv': "table_inv E s'"
    and tn: "table_nodes s' = table_nodes s" and nd: "node_data (heap s') = node_data (heap s)"
  shows "FindNode E k s' = FindNode E k s"
proof -
  from FindNode_spec [OF inv kf, of k] obtain r where
    r: "FindNode E k s = Some (Inr r)"
       "\<forall>a. r = Some a \<longleftrightarrow> a \<in> table_nodes s \<and> matches (Equals E) (heap s) k a"
    by blast
  from FindNode_spec [OF inv' kf, of k] obtain r' where
    r': "FindNode E k s' = Some (Inr r')"
        "\<forall>a. r' = Some a \<longleftrightarrow> a \<in> table_nodes s' \<and> matches (Equals E) (heap s') k a"
    by blast
  have "r' = Some a \<longleftrightarrow> r = Some a" for a
    using r(2) r'(2) tn matches_cong [OF nd, of "Equals E" k a] by simp
  then have "r' = r" by (cases r; cases r') auto
  then show ?thesis using r(1) r'(1) by simp
qed

lemma Lookup_cong:
  assumes kf: "KeyFuncs_ok E" and inv: "table_inv E s" and inv': "table_inv E s'"
    and tn: "table_nodes s' = table_nodes s" and nd: "node_data (heap s') = node_data (heap s)"
  shows "\<exists>r. Lookup E k pVal s mem = Some (Inr (r, s)) \<and> Lookup E k pVal s' mem = Some (Inr (r, s'))"
proof (cases "\<exists>a\<in>table_nodes s. matches (Equals E) (heap s) k a")
  case True
  then obtain a n where a: "a \<in> table_nodes s" "heap s a = Some n" "Equals E k (m_key n)"
    by (auto simp: matches_def split: option.splits)
  from node_data_key [OF nd a(2)] obtain n' where
    n': "heap s' a = Some n'" "m_key n' = m_key n" "m_val n' = m_val n" by blast
  have a': "a \<in> table_nodes s'" using a(1) tn by simp
  have e': "Equals E k (m_key n')" using a(3) n'(2) by simp
  show ?thesis
    using Lookup_present [OF inv kf a, of pVal mem] Lookup_present [OF inv' kf a' n'(1) e', of pVal mem]
    unfolding n'(3) by blast
next
  case False
  then have m: "\<forall>b\<in>table_nodes s. \<not> matches (Equals E) (heap s) k b" by blast
  then have m': "\<forall>b\<in>table_nodes s'. \<not> matches (Equals E) (heap s') k b"
    using tn matches_cong [OF nd, of "Equals E" k] by simp
  show ?thesis
    using Lookup_absent [OF inv kf m, of pVal mem] Lookup_absent [OF inv' kf m', of pVal mem]
    by blast
qed

text \<open>
  C3. A \<^verbatim>\<open>Grow\<close> that returns (in particular the one \<^verbatim>\<open>CheckGrowth\<close> starts when the count has
  reached the threshold) leaves the contents as they were: for every key, \<^verbatim>\<open>FindNode\<close> finds
  the same node and \<^verbatim>\<open>Lookup\<close> gives the same answer and value as before, so a present key
  keeps its value and an absent key stays absent. The nodes of the table are the same
  objects at the same addresses, the key and the value of every node are untouched, no
  node is allocated or released, and memory outside the nodes of the table is unchanged:
  only \<^verbatim>\<open>m_next\<close> links are rewritten.
\<close>

theorem Grow_preserves_contents:
  assumes pol: "policies_ok E" and inv: "table_inv E s"
    and g: "Grow E s = Some (Inr (u, s'))"
  shows "table_inv E s'
       \<and> (m_tableCount s = m_tableMax s \<longrightarrow> CheckGrowth E s = Some (Inr (u, s')))
       \<and> FindNode E k s' = FindNode E k s
       \<and> (\<exists>r. Lookup E k pVal s mem = Some (Inr (r, s))
              \<and> Lookup E k pVal s' mem = Some (Inr (r, s')))
       \<and> table_nodes s' = table_nodes s
       \<and> node_data (heap s') = node_data (heap s)
       \<and> (\<forall>b. b \<notin> table_nodes s \<longrightarrow> heap s' b = heap s b)
       \<and> m_tableCount s' = m_tableCount s"
proof -
  have pk: "\<forall>p\<in>set (primeInfo E). magic_valid p" and b: "Behavior_ok E" and kf: "KeyFuncs_ok E"
    using pol by (simp_all add: policies_ok_def)
  from Grow_ok [OF pk b inv] g have
    inv': "table_inv E s'" and tn: "table_nodes s' = table_nodes s"
    and nd: "node_data (heap s') = node_data (heap s)"
    and fr: "\<forall>b. b \<notin> table_nodes s \<longrightarrow> heap s' b = heap s b"
    and cnt: "m_tableCount s' = m_tableCount s"
    by auto
  have cg: "m_tableCount s = m_tableMax s \<longrightarrow> CheckGrowth E s = Some (Inr (u, s'))"
    using g by (simp add: CheckGrowth_def)
  show ?thesis
    using inv' cg FindNode_cong [OF kf inv inv' tn nd, of k]
      Lookup_cong [OF kf inv inv' tn nd, of k pVal mem] tn nd fr cnt
    by blast
qed



lemma E1_ok: "policies_ok E1"
proof -
  have "KeyFuncs_ok E1" by (simp add: KeyFuncs_ok_def E1_def E0_def)
  moreover have "Behavior_ok E1" by (simp add: Behavior_ok_def E1_def E0_def)
  moreover have "\<forall>p\<in>set (primeInfo E1). magic_valid p"
    by (simp add: E1_def E0_def magic_valid_def)
  moreover have "\<forall>s a. Alloc E1 s = Some a \<longrightarrow> heap s a = None"
    by (auto simp: E1_def E0_def find_Some_iff)
  ultimately show ?thesis by (simp add: policies_ok_def)
qed

lemma Set_first_E1:
  "Set E1 1 10 (SimplerHashTable_new Map.empty) =
     Some (Inr (False,
       \<lparr>heap = [0 \<mapsto> \<lparr>m_key = 1, m_val = 10, m_next = None\<rparr>],
        m_table = Some ((replicate 3 None)[1 := Some 0]),
        m_tableSizeInfo = \<lparr>prime = 3, magic = 0xaaaaaaab, shift = 1\<rparr>,
        m_tableCount = 1, m_tableMax = 2\<rparr>))"
  by (simp add: Set_def CheckGrowth_def Grow_def Reallocate_def NextPrime_def
      NextPrime_loop.simps move_buckets.simps SimplerHashTable_new_def
      GetIndexForKey_def magicNumberRem_def magicNumberDivide_def E1_def E0_def
      chain_search.simps)

lemma Set_second_E1:
  "Set E1 4 20
       \<lparr>heap = [0 \<mapsto> \<lparr>m_key = 1, m_val = 10, m_next = None\<rparr>],
        m_table = Some ((replicate 3 None)[1 := Some 0]),
        m_tableSizeInfo = \<lparr>prime = 3, magic = 0xaaaaaaab, shift = 1\<rparr>,
        m_tableCount = 1, m_tableMax = 2\<rparr> =
     Some (Inr (False,
       \<lparr>heap = [0 \<mapsto> \<lparr>m_key = 1, m_val = 10, m_next = None\<rparr>,
                1 \<mapsto> \<lparr>m_key = 4, m_val = 20, m_next = Some 0\<rparr>],
        m_table = Some ((replicate 3 None)[1 := Some 1]),
        m_tableSizeInfo = \<lparr>prime = 3, magic = 0xaaaaaaab, shift = 1\<rparr>,
        m_tableCount = 2, m_tableMax = 2\<rparr>))"
  by (simp add: Set_def CheckGrowth_def GetIndexForKey_def magicNumberRem_def
      magicNumberDivide_def E1_def E0_def chain_search.simps)

lemma run_E1:
  "run_ops E1 [DoSet 1 10, DoSet 4 20] (SimplerHashTable_new Map.empty) =
     Some (Inr ((),
       \<lparr>heap = [0 \<mapsto> \<lparr>m_key = 1, m_val = 10, m_next = None\<rparr>,
                1 \<mapsto> \<lparr>m_key = 4, m_val = 20, m_next = Some 0\<rparr>],
        m_table = Some ((replicate 3 None)[1 := Some 1]),
        m_tableSizeInfo = \<lparr>prime = 3, magic = 0xaaaaaaab, shift = 1\<rparr>,
        m_tableCount = 2, m_tableMax = 2\<rparr>))"
  by (simp only: run_ops.simps Set_first_E1 Set_second_E1 option.case sum.case prod.case)

lemma Grow_full_E1:
  "Grow E1
       \<lparr>heap = [0 \<mapsto> \<lparr>m_key = 1, m_val = 10, m_next = None\<rparr>,
                1 \<mapsto> \<lparr>m_key = 4, m_val = 20, m_next = Some 0\<rparr>],
        m_table = Some ((replicate 3 None)[1 := Some 1]),
        m_tableSizeInfo = \<lparr>prime = 3, magic = 0xaaaaaaab, shift = 1\<rparr>,
        m_tableCount = 2, m_tableMax = 2\<rparr> =
   Some (Inr ((),
       \<lparr>heap = [1 \<mapsto> \<lparr>m_key = 4, m_val = 20, m_next = None\<rparr>,
                0 \<mapsto> \<lparr>m_key = 1, m_val = 10, m_next = None\<rparr>],
        m_table = Some ((replicate 9 None)[4 := Some 1, 1 := Some 0]),
        m_tableSizeInfo = \<lparr>prime = 9, magic = 0x38e38e39, shift = 1\<rparr>,
        m_tableCount = 2, m_tableMax = 6\<rparr>))"
  by (simp add: Grow_def Reallocate_def NextPrime_def NextPrime_loop.simps E1_def E0_def
      move_buckets.simps move_chain.simps magicNumberRem_def magicNumberDivide_def Let_def)

theorem Grow_preserves_contents_witness:
  "policies_ok E1
   \<and> Grow E1
       \<lparr>heap = [0 \<mapsto> \<lparr>m_key = 1, m_val = 10, m_next = None\<rparr>,
                1 \<mapsto> \<lparr>m_key = 4, m_val = 20, m_next = Some 0\<rparr>],
        m_table = Some ((replicate 3 None)[1 := Some 1]),
        m_tableSizeInfo = \<lparr>prime = 3, magic = 0xaaaaaaab, shift = 1\<rparr>,
        m_tableCount = 2, m_tableMax = 2\<rparr> =
     Some (Inr ((),
       \<lparr>heap = [1 \<mapsto> \<lparr>m_key = 4, m_val = 20, m_next = None\<rparr>,
                0 \<mapsto> \<lparr>m_key = 1, m_val = 10, m_next = None\<rparr>],
        m_table = Some ((replicate 9 None)[4 := Some 1, 1 := Some 0]),
        m_tableSizeInfo = \<lparr>prime = 9, magic = 0x38e38e39, shift = 1\<rparr>,
        m_tableCount = 2, m_tableMax = 6\<rparr>))
   \<and> FindNode E1 4
       \<lparr>heap = [1 \<mapsto> \<lparr>m_key = 4, m_val = 20, m_next = None\<rparr>,
                0 \<mapsto> \<lparr>m_key = 1, m_val = 10, m_next = None\<rparr>],
        m_table = Some ((replicate 9 None)[4 := Some 1, 1 := Some 0]),
        m_tableSizeInfo = \<lparr>prime = 9, magic = 0x38e38e39, shift = 1\<rparr>,
        m_tableCount = 2, m_tableMax = 6\<rparr>
     = FindNode E1 4
       \<lparr>heap = [0 \<mapsto> \<lparr>m_key = 1, m_val = 10, m_next = None\<rparr>,
                1 \<mapsto> \<lparr>m_key = 4, m_val = 20, m_next = Some 0\<rparr>],
        m_table = Some ((replicate 3 None)[1 := Some 1]),
        m_tableSizeInfo = \<lparr>prime = 3, magic = 0xaaaaaaab, shift = 1\<rparr>,
        m_tableCount = 2, m_tableMax = 2\<rparr>
   \<and> FindNode E1 4
       \<lparr>heap = [0 \<mapsto> \<lparr>m_key = 1, m_val = 10, m_next = None\<rparr>,
                1 \<mapsto> \<lparr>m_key = 4, m_val = 20, m_next = Some 0\<rparr>],
        m_table = Some ((replicate 3 None)[1 := Some 1]),
        m_tableSizeInfo = \<lparr>prime = 3, magic = 0xaaaaaaab, shift = 1\<rparr>,
        m_tableCount = 2, m_tableMax = 2\<rparr> = Some (Inr (Some 1))"
proof -
  note inv = run_ops_inv [OF E1_ok new_inv run_E1]
  have f: "FindNode E1 4
       \<lparr>heap = [0 \<mapsto> \<lparr>m_key = 1, m_val = 10, m_next = None\<rparr>,
                1 \<mapsto> \<lparr>m_key = 4, m_val = 20, m_next = Some 0\<rparr>],
        m_table = Some ((replicate 3 None)[1 := Some 1]),
        m_tableSizeInfo = \<lparr>prime = 3, magic = 0xaaaaaaab, shift = 1\<rparr>,
        m_tableCount = 2, m_tableMax = 2\<rparr> = Some (Inr (Some 1))"
    by (simp add: FindNode_def GetIndexForKey_def magicNumberRem_def magicNumberDivide_def
        E1_def E0_def chain_search.simps)
  show ?thesis
    using E1_ok Grow_full_E1 f Grow_preserves_contents [OF E1_ok inv Grow_full_E1, of 4 None Map.empty]
    by blast
qed

section \<open>Remove on a table that never grew\<close>

text \<open>
  C5. On the table as the constructor leaves it (no bucket array, \<open>prime = 0\<close>) \<^verbatim>\<open>Remove\<close>
  does not return \<^verbatim>\<open>false\<close>: it has no test for \<open>prime = 0\<close>, computes an index and reads
  \<^verbatim>\<open>m_table[index]\<close> through the null pointer. \<^verbatim>\<open>FindNode\<close>, which has the test, returns
  \<^verbatim>\<open>NULL\<close> on the same table.
\<close>

theorem Remove_new_table_faults:
  "Remove E k (SimplerHashTable_new h) = Some (Inl (AccessViolation, SimplerHashTable_new h))
   \<and> FindNode E k (SimplerHashTable_new h) = Some (Inr None)"
  by (simp add: Remove_def FindNode_def SimplerHashTable_new_def)

section \<open>The steps of Set\<close>

text \<open>
  C6. On a table that satisfies the invariant, \<^verbatim>\<open>Set(k, v)\<close> first runs the growth check, which
  is \<^verbatim>\<open>Grow\<close> exactly when the count equals the threshold at entry, whatever the key; if that
  ends in \<^verbatim>\<open>NoMemory()\<close> so does \<^verbatim>\<open>Set\<close>, with the table untouched. Otherwise, in the state \<open>s1\<close>
  after the check: if a node of the table matches \<open>k\<close>, its value is overwritten at its
  address, nothing else changes and the result is \<^verbatim>\<open>true\<close>; if none matches, a node from the
  allocator with key \<open>k\<close>, value \<open>v\<close> and the old head of the bucket as \<^verbatim>\<open>m_next\<close> becomes the
  head of the bucket of \<open>k\<close>, the count goes up by one and the result is \<^verbatim>\<open>false\<close> (or the
  allocator has no memory and \<^verbatim>\<open>Set\<close> ends in \<^verbatim>\<open>NoMemory()\<close> after the growth).
\<close>

theorem Set_steps:
  assumes pol: "policies_ok E" and inv: "table_inv E s"
  shows "CheckGrowth E s = (if m_tableCount s = m_tableMax s then Grow E s else Some (Inr ((), s)))
       \<and> (case CheckGrowth E s of
            None \<Rightarrow> False
          | Some (Inl es) \<Rightarrow> es = (NoMemory, s) \<and> Set E k v s = Some (Inl (NoMemory, s))
          | Some (Inr (u, s1)) \<Rightarrow>
              (case m_table s1 of
                 None \<Rightarrow> False
               | Some bs \<Rightarrow>
                   unat (GetIndexForKey E k s1) < length bs \<and>
                   (if \<exists>a\<in>table_nodes s1. matches (Equals E) (heap s1) k a
                    then \<exists>a n. a \<in> table_nodes s1 \<and> heap s1 a = Some n \<and> Equals E k (m_key n)
                           \<and> Set E k v s =
                               Some (Inr (True, s1\<lparr>heap := (heap s1)(a \<mapsto> n\<lparr>m_val := v\<rparr>)\<rparr>))
                    else (case Alloc E s1 of
                            None \<Rightarrow> Set E k v s = Some (Inl (NoMemory, s1))
                          | Some a \<Rightarrow>
                              heap s1 a = None \<and>
                              Set E k v s = Some (Inr (False,
                                s1\<lparr>heap := (heap s1)(a \<mapsto>
                                      \<lparr>m_key = k, m_val = v,
                                       m_next = bs ! unat (GetIndexForKey E k s1)\<rparr>),
                                   m_table := Some (bs[unat (GetIndexForKey E k s1) := Some a]),
                                   m_tableCount := m_tableCount s1 + 1\<rparr>))))))"
proof
  show "CheckGrowth E s = (if m_tableCount s = m_tableMax s then Grow E s else Some (Inr ((), s)))"
    by (simp add: CheckGrowth_def)
next
  have kf: "KeyFuncs_ok E" using pol by (simp add: policies_ok_def)
  show "case CheckGrowth E s of
            None \<Rightarrow> False
          | Some (Inl es) \<Rightarrow> es = (NoMemory, s) \<and> Set E k v s = Some (Inl (NoMemory, s))
          | Some (Inr (u, s1)) \<Rightarrow>
              (case m_table s1 of
                 None \<Rightarrow> False
               | Some bs \<Rightarrow>
                   unat (GetIndexForKey E k s1) < length bs \<and>
                   (if \<exists>a\<in>table_nodes s1. matches (Equals E) (heap s1) k a
                    then \<exists>a n. a \<in> table_nodes s1 \<and> heap s1 a = Some n \<and> Equals E k (m_key n)
                           \<and> Set E k v s =
                               Some (Inr (True, s1\<lparr>heap := (heap s1)(a \<mapsto> n\<lparr>m_val := v\<rparr>)\<rparr>))
                    else (case Alloc E s1 of
                            None \<Rightarrow> Set E k v s = Some (Inl (NoMemory, s1))
                          | Some a \<Rightarrow>
                              heap s1 a = None \<and>
                              Set E k v s = Some (Inr (False,
                                s1\<lparr>heap := (heap s1)(a \<mapsto>
                                      \<lparr>m_key = k, m_val = v,
                                       m_next = bs ! unat (GetIndexForKey E k s1)\<rparr>),
                                   m_table := Some (bs[unat (GetIndexForKey E k s1) := Some a]),
                                   m_tableCount := m_tableCount s1 + 1\<rparr>)))))"
  proof (cases rule: Set_cases [OF pol inv, of k v, case_names growth_failed hit alloc_failed miss])
    case growth_failed
    then show ?thesis by simp
  next
    case (hit s1 a n)
    from hit(5) obtain bs where bs: "m_table s1 = Some bs" by (auto simp: table_nodes_def)
    from table_inv_buckets [OF hit(2) bs] obtain ass where ok: "buckets_ok E s1 bs ass" ..
    have i: "unat (GetIndexForKey E k s1) < length bs" using buckets_ok_index [OF ok] .
    have "matches (Equals E) (heap s1) k a" using hit(6,7) by (simp add: matches_def)
    then have m: "\<exists>a\<in>table_nodes s1. matches (Equals E) (heap s1) k a"
      using hit(5) by blast
    have "\<exists>a n. a \<in> table_nodes s1 \<and> heap s1 a = Some n \<and> Equals E k (m_key n)
            \<and> Set E k v s = Some (Inr (True, s1\<lparr>heap := (heap s1)(a \<mapsto> n\<lparr>m_val := v\<rparr>)\<rparr>))"
      using hit(5,6,7,8) by blast
    then show ?thesis using hit(1) bs i m by simp
  next
    case (alloc_failed s1 bs)
    then show ?thesis by simp
  next
    case (miss s1 bs a)
    then show ?thesis by simp
  qed
qed

text \<open>A \<^verbatim>\<open>Set\<close> of a key that is present, on a table whose count has reached the threshold:
  the table grows although no node is added.\<close>

lemma Set_existing_E1:
  "Set E1 4 99
       \<lparr>heap = [0 \<mapsto> \<lparr>m_key = 1, m_val = 10, m_next = None\<rparr>,
                1 \<mapsto> \<lparr>m_key = 4, m_val = 20, m_next = Some 0\<rparr>],
        m_table = Some ((replicate 3 None)[1 := Some 1]),
        m_tableSizeInfo = \<lparr>prime = 3, magic = 0xaaaaaaab, shift = 1\<rparr>,
        m_tableCount = 2, m_tableMax = 2\<rparr> =
   Some (Inr (True,
       \<lparr>heap = [0 \<mapsto> \<lparr>m_key = 1, m_val = 10, m_next = None\<rparr>,
                1 \<mapsto> \<lparr>m_key = 4, m_val = 99, m_next = None\<rparr>],
        m_table = Some ((replicate 9 None)[4 := Some 1, 1 := Some 0]),
        m_tableSizeInfo = \<lparr>prime = 9, magic = 0x38e38e39, shift = 1\<rparr>,
        m_tableCount = 2, m_tableMax = 6\<rparr>))"
proof -
  have cg: "CheckGrowth E1
       \<lparr>heap = [0 \<mapsto> \<lparr>m_key = 1, m_val = 10, m_next = None\<rparr>,
                1 \<mapsto> \<lparr>m_key = 4, m_val = 20, m_next = Some 0\<rparr>],
        m_table = Some ((replicate 3 None)[1 := Some 1]),
        m_tableSizeInfo = \<lparr>prime = 3, magic = 0xaaaaaaab, shift = 1\<rparr>,
        m_tableCount = 2, m_tableMax = 2\<rparr> =
     Some (Inr ((),
       \<lparr>heap = [1 \<mapsto> \<lparr>m_key = 4, m_val = 20, m_next = None\<rparr>,
                0 \<mapsto> \<lparr>m_key = 1, m_val = 10, m_next = None\<rparr>],
        m_table = Some ((replicate 9 None)[4 := Some 1, 1 := Some 0]),
        m_tableSizeInfo = \<lparr>prime = 9, magic = 0x38e38e39, shift = 1\<rparr>,
        m_tableCount = 2, m_tableMax = 6\<rparr>))"
    using Grow_full_E1 by (simp add: CheckGrowth_def)
  show ?thesis
    unfolding Set_def cg
    by (simp add: GetIndexForKey_def magicNumberRem_def magicNumberDivide_def
        chain_search.simps E1_def E0_def)
qed

theorem Set_steps_witness:
  "policies_ok E1
   \<and> table_inv E1
       \<lparr>heap = [0 \<mapsto> \<lparr>m_key = 1, m_val = 10, m_next = None\<rparr>,
                1 \<mapsto> \<lparr>m_key = 4, m_val = 20, m_next = Some 0\<rparr>],
        m_table = Some ((replicate 3 None)[1 := Some 1]),
        m_tableSizeInfo = \<lparr>prime = 3, magic = 0xaaaaaaab, shift = 1\<rparr>,
        m_tableCount = 2, m_tableMax = 2\<rparr>
   \<and> CheckGrowth E1
       \<lparr>heap = [0 \<mapsto> \<lparr>m_key = 1, m_val = 10, m_next = None\<rparr>,
                1 \<mapsto> \<lparr>m_key = 4, m_val = 20, m_next = Some 0\<rparr>],
        m_table = Some ((replicate 3 None)[1 := Some 1]),
        m_tableSizeInfo = \<lparr>prime = 3, magic = 0xaaaaaaab, shift = 1\<rparr>,
        m_tableCount = 2, m_tableMax = 2\<rparr>
     = Grow E1
       \<lparr>heap = [0 \<mapsto> \<lparr>m_key = 1, m_val = 10, m_next = None\<rparr>,
                1 \<mapsto> \<lparr>m_key = 4, m_val = 20, m_next = Some 0\<rparr>],
        m_table = Some ((replicate 3 None)[1 := Some 1]),
        m_tableSizeInfo = \<lparr>prime = 3, magic = 0xaaaaaaab, shift = 1\<rparr>,
        m_tableCount = 2, m_tableMax = 2\<rparr>
   \<and> Set E1 4 99
       \<lparr>heap = [0 \<mapsto> \<lparr>m_key = 1, m_val = 10, m_next = None\<rparr>,
                1 \<mapsto> \<lparr>m_key = 4, m_val = 20, m_next = Some 0\<rparr>],
        m_table = Some ((replicate 3 None)[1 := Some 1]),
        m_tableSizeInfo = \<lparr>prime = 3, magic = 0xaaaaaaab, shift = 1\<rparr>,
        m_tableCount = 2, m_tableMax = 2\<rparr>
     = Some (Inr (True,
       \<lparr>heap = [0 \<mapsto> \<lparr>m_key = 1, m_val = 10, m_next = None\<rparr>,
                1 \<mapsto> \<lparr>m_key = 4, m_val = 99, m_next = None\<rparr>],
        m_table = Some ((replicate 9 None)[4 := Some 1, 1 := Some 0]),
        m_tableSizeInfo = \<lparr>prime = 9, magic = 0x38e38e39, shift = 1\<rparr>,
        m_tableCount = 2, m_tableMax = 6\<rparr>))"
proof -
  note inv = run_ops_inv [OF E1_ok new_inv run_E1]
  have "CheckGrowth E1
       \<lparr>heap = [0 \<mapsto> \<lparr>m_key = 1, m_val = 10, m_next = None\<rparr>,
                1 \<mapsto> \<lparr>m_key = 4, m_val = 20, m_next = Some 0\<rparr>],
        m_table = Some ((replicate 3 None)[1 := Some 1]),
        m_tableSizeInfo = \<lparr>prime = 3, magic = 0xaaaaaaab, shift = 1\<rparr>,
        m_tableCount = 2, m_tableMax = 2\<rparr>
     = Grow E1
       \<lparr>heap = [0 \<mapsto> \<lparr>m_key = 1, m_val = 10, m_next = None\<rparr>,
                1 \<mapsto> \<lparr>m_key = 4, m_val = 20, m_next = Some 0\<rparr>],
        m_table = Some ((replicate 3 None)[1 := Some 1]),
        m_tableSizeInfo = \<lparr>prime = 3, magic = 0xaaaaaaab, shift = 1\<rparr>,
        m_tableCount = 2, m_tableMax = 2\<rparr>"
    using Set_steps [OF E1_ok inv, where k = 4 and v = 99] by simp
  then show ?thesis using E1_ok inv Set_existing_E1 by blast
qed

section \<open>Failures during growth\<close>

lemma Reallocate_succeeds:
  assumes pk: "\<forall>p\<in>set (primeInfo E). magic_valid p"
    and dd: "s_density_factor_denominator E \<noteq> 0"
    and inv: "table_inv E s"
    and np: "NextPrime E sz = Inr np" and al: "ArrayAlloc E s (prime np)"
  shows "\<exists>s'. Reallocate E sz s = Some (Inr ((), s'))"
proof -
  have "np \<in> set (primeInfo E)" using np by (auto simp: NextPrime_Inr)
  then have v: "magic_valid np" using pk by blast
  from move_all_ok [OF inv v] obtain h' nt' where
    "move_buckets E np (m_table s) (unat (prime (m_tableSizeInfo s))) 0 (heap s)
       (replicate (unat (prime np)) None) = Some (Inr (h', nt'))"
    by blast
  then show ?thesis using np al dd by (simp add: Reallocate_def Let_def)
qed

text \<open>
  C9. On a table that satisfies the invariant, growth always ends, it can only fail with
  \<^verbatim>\<open>Behavior::NoMemory()\<close>, and only because the prime table is exhausted, the bucket array
  is not granted, or the computed size is less than the count. In each case the state at
  the failure is the state at entry: no table field and no node has been written. A
  \<^verbatim>\<open>Set\<close> whose growth check fails ends in the same way.
\<close>

theorem growth_failure_atomic:
  assumes pol: "policies_ok E" and inv: "table_inv E s"
  shows "(NextPrime E sz = Inl NoMemory \<longrightarrow> Reallocate E sz s = Some (Inl (NoMemory, s)))
       \<and> (\<forall>np. NextPrime E sz = Inr np \<and> \<not> ArrayAlloc E s (prime np)
              \<longrightarrow> Reallocate E sz s = Some (Inl (NoMemory, s)))
       \<and> (\<forall>es. Reallocate E sz s = Some (Inl es)
              \<longrightarrow> es = (NoMemory, s)
                  \<and> (NextPrime E sz = Inl NoMemory
                       \<or> (\<exists>np. NextPrime E sz = Inr np \<and> \<not> ArrayAlloc E s (prime np))))
       \<and> (\<forall>es. Grow E s = Some (Inl es) \<longrightarrow> es = (NoMemory, s))
       \<and> (\<forall>es. CheckGrowth E s = Some (Inl es)
              \<longrightarrow> es = (NoMemory, s) \<and> Set E k v s = Some (Inl (NoMemory, s)))
       \<and> Reallocate E sz s \<noteq> None \<and> Grow E s \<noteq> None \<and> CheckGrowth E s \<noteq> None"
proof (intro conjI allI impI)
  have pk: "\<forall>p\<in>set (primeInfo E). magic_valid p" and b: "Behavior_ok E"
    using pol by (simp_all add: policies_ok_def)
  have dd: "s_density_factor_denominator E \<noteq> 0" using b by (auto simp: Behavior_ok_def)
  show "Reallocate E sz s = Some (Inl (NoMemory, s))" if "NextPrime E sz = Inl NoMemory"
    using that by (simp add: Reallocate_def)
  show "Reallocate E sz s = Some (Inl (NoMemory, s))"
    if "NextPrime E sz = Inr np \<and> \<not> ArrayAlloc E s (prime np)" for np
    using that by (simp add: Reallocate_def)
  show "es = (NoMemory, s)" if "Reallocate E sz s = Some (Inl es)" for es
    using that Reallocate_ok [OF pk dd inv, of sz] by auto
  show "NextPrime E sz = Inl NoMemory
          \<or> (\<exists>np. NextPrime E sz = Inr np \<and> \<not> ArrayAlloc E s (prime np))"
    if r: "Reallocate E sz s = Some (Inl es)" for es
  proof (cases "NextPrime E sz")
    case (Inl e)
    then show ?thesis by (simp add: NextPrime_Inl)
  next
    case (Inr np)
    have "\<not> ArrayAlloc E s (prime np)"
      using Reallocate_succeeds [OF pk dd inv Inr] r by auto
    then show ?thesis using Inr by simp
  qed
  show "es = (NoMemory, s)" if "Grow E s = Some (Inl es)" for es
    using that Grow_ok [OF pk b inv] by auto
  show "es = (NoMemory, s)" if "CheckGrowth E s = Some (Inl es)" for es
    using that CheckGrowth_ok [OF pk b inv] by auto
  show "Set E k v s = Some (Inl (NoMemory, s))" if "CheckGrowth E s = Some (Inl es)" for es
    using that CheckGrowth_ok [OF pk b inv] by (auto simp: Set_def)
  show "Reallocate E sz s \<noteq> None" using Reallocate_ok [OF pk dd inv, of sz] by auto
  show "Grow E s \<noteq> None" using Grow_ok [OF pk b inv] by auto
  show "CheckGrowth E s \<noteq> None" using CheckGrowth_ok [OF pk b inv] by auto
qed

theorem growth_failure_atomic_witness:
  "policies_ok E0 \<and> table_inv E0 (SimplerHashTable_new Map.empty)
   \<and> NextPrime E0 24 = Inl NoMemory
   \<and> Reallocate E0 24 (SimplerHashTable_new Map.empty)
       = Some (Inl (NoMemory, SimplerHashTable_new Map.empty))"
proof -
  have n: "NextPrime E0 24 = Inl NoMemory"
    by (simp add: NextPrime_Inl E0_def)
  then show ?thesis
    using growth_failure_atomic [OF E0_ok new_inv, of 24 Map.empty 0 0] E0_ok
      new_inv [of E0 Map.empty]
    by blast
qed

section \<open>Lookup without an output pointer\<close>

text \<open>
  C10. \<^verbatim>\<open>Lookup(k, NULL)\<close> ends as \<^verbatim>\<open>Lookup(k, pVal)\<close> does and with the same boolean, leaves
  the caller's memory as it was, and in every case ends in the state it started in; on a
  table that satisfies the invariant it returns.
\<close>

theorem Lookup_null_pVal:
  "Lookup E k None s mem =
     (case Lookup E k (Some p) s mem of
        None \<Rightarrow> None
      | Some (Inl es) \<Rightarrow> Some (Inl es)
      | Some (Inr ((b, mem'), s')) \<Rightarrow> Some (Inr ((b, mem), s')))
   \<and> (\<forall>b mem' s'. Lookup E k None s mem = Some (Inr ((b, mem'), s')) \<longrightarrow> mem' = mem \<and> s' = s)
   \<and> (\<forall>e s'. Lookup E k pVal s mem = Some (Inl (e, s')) \<longrightarrow> s' = s)
   \<and> (\<forall>r s'. Lookup E k pVal s mem = Some (Inr (r, s')) \<longrightarrow> s' = s)
   \<and> (table_inv E s \<and> KeyFuncs_ok E
        \<longrightarrow> (\<exists>b. Lookup E k None s mem = Some (Inr ((b, mem), s))))"
proof (intro conjI allI impI)
  show "Lookup E k None s mem =
     (case Lookup E k (Some p) s mem of
        None \<Rightarrow> None
      | Some (Inl es) \<Rightarrow> Some (Inl es)
      | Some (Inr ((b, mem'), s')) \<Rightarrow> Some (Inr ((b, mem), s')))"
    by (simp add: Lookup_def split: option.splits sum.splits)
  show "mem' = mem" if "Lookup E k None s mem = Some (Inr ((b, mem'), s'))" for b mem' s'
    using that by (auto simp: Lookup_def split: option.splits sum.splits)
  show "s' = s" if "Lookup E k None s mem = Some (Inr ((b, mem'), s'))" for b mem' s'
    using that by (auto simp: Lookup_def split: option.splits sum.splits)
  show "s' = s" if "Lookup E k pVal s mem = Some (Inl (e, s'))" for e s'
    using that by (auto simp: Lookup_def split: option.splits sum.splits)
  show "s' = s" if "Lookup E k pVal s mem = Some (Inr (r, s'))" for r s'
    using that by (auto simp: Lookup_def split: option.splits sum.splits)
  show "\<exists>b. Lookup E k None s mem = Some (Inr ((b, mem), s))" if "table_inv E s \<and> KeyFuncs_ok E"
  proof (cases "\<exists>a\<in>table_nodes s. matches (Equals E) (heap s) k a")
    case True
    then obtain a n where a: "a \<in> table_nodes s" "heap s a = Some n" "Equals E k (m_key n)"
      by (auto simp: matches_def split: option.splits)
    show ?thesis using Lookup_present [OF _ _ a, of None mem] that by auto
  next
    case False
    then show ?thesis using Lookup_absent [of E s k None mem] that by auto
  qed
qed

lemma Lookup_E0:
  "Lookup E0 5 (Some 0)
         \<lparr>heap = [0 \<mapsto> \<lparr>m_key = 5, m_val = 10, m_next = None\<rparr>],
          m_table = Some ((replicate 9 None)[5 := Some 0]),
          m_tableSizeInfo = \<lparr>prime = 9, magic = 0x38e38e39, shift = 1\<rparr>,
          m_tableCount = 1, m_tableMax = 6\<rparr> Map.empty
     = Some (Inr ((True, [0 \<mapsto> 10]),
         \<lparr>heap = [0 \<mapsto> \<lparr>m_key = 5, m_val = 10, m_next = None\<rparr>],
          m_table = Some ((replicate 9 None)[5 := Some 0]),
          m_tableSizeInfo = \<lparr>prime = 9, magic = 0x38e38e39, shift = 1\<rparr>,
          m_tableCount = 1, m_tableMax = 6\<rparr>))"
  by (simp add: Lookup_def FindNode_def GetIndexForKey_def magicNumberRem_def
      magicNumberDivide_def E0_def chain_search.simps)

theorem Lookup_null_pVal_witness:
  "table_inv E0
         \<lparr>heap = [0 \<mapsto> \<lparr>m_key = 5, m_val = 10, m_next = None\<rparr>],
          m_table = Some ((replicate 9 None)[5 := Some 0]),
          m_tableSizeInfo = \<lparr>prime = 9, magic = 0x38e38e39, shift = 1\<rparr>,
          m_tableCount = 1, m_tableMax = 6\<rparr>
   \<and> KeyFuncs_ok E0
   \<and> Lookup E0 5 None
         \<lparr>heap = [0 \<mapsto> \<lparr>m_key = 5, m_val = 10, m_next = None\<rparr>],
          m_table = Some ((replicate 9 None)[5 := Some 0]),
          m_tableSizeInfo = \<lparr>prime = 9, magic = 0x38e38e39, shift = 1\<rparr>,
          m_tableCount = 1, m_tableMax = 6\<rparr> Map.empty
     = Some (Inr ((True, Map.empty),
         \<lparr>heap = [0 \<mapsto> \<lparr>m_key = 5, m_val = 10, m_next = None\<rparr>],
          m_table = Some ((replicate 9 None)[5 := Some 0]),
          m_tableSizeInfo = \<lparr>prime = 9, magic = 0x38e38e39, shift = 1\<rparr>,
          m_tableCount = 1, m_tableMax = 6\<rparr>))"
proof -
  note inv1 = Set_inv [OF E0_ok new_inv Set_new_E0]
  have kf: "KeyFuncs_ok E0" using E0_ok by (simp add: policies_ok_def)
  have "Lookup E0 5 None
         \<lparr>heap = [0 \<mapsto> \<lparr>m_key = 5, m_val = 10, m_next = None\<rparr>],
          m_table = Some ((replicate 9 None)[5 := Some 0]),
          m_tableSizeInfo = \<lparr>prime = 9, magic = 0x38e38e39, shift = 1\<rparr>,
          m_tableCount = 1, m_tableMax = 6\<rparr> Map.empty
     = Some (Inr ((True, Map.empty),
         \<lparr>heap = [0 \<mapsto> \<lparr>m_key = 5, m_val = 10, m_next = None\<rparr>],
          m_table = Some ((replicate 9 None)[5 := Some 0]),
          m_tableSizeInfo = \<lparr>prime = 9, magic = 0x38e38e39, shift = 1\<rparr>,
          m_tableCount = 1, m_tableMax = 6\<rparr>))"
    using Lookup_null_pVal [of E0 5
         "\<lparr>heap = [0 \<mapsto> \<lparr>m_key = 5, m_val = 10, m_next = None\<rparr>],
          m_table = Some ((replicate 9 None)[5 := Some 0]),
          m_tableSizeInfo = \<lparr>prime = 9, magic = 0x38e38e39, shift = 1\<rparr>,
          m_tableCount = 1, m_tableMax = 6\<rparr>" Map.empty 0 None]
    by (simp only: Lookup_E0 option.case sum.case prod.case)
  then show ?thesis using inv1 kf by blast
qed

end
